theory Spec2Isabelle
  imports Main
begin

section \<open>Strings and the character classes of Python's \<open>re\<close> and \<open>str\<close>\<close>

text \<open>
  A Python \<open>str\<close> is modelled as a \<open>string\<close>; a \<open>char\<close> stands for the code point
  with the same number (U+0000 to U+00FF). The classes below are the ones Python 3 uses for
  these code points: \<open>\s\<close> and \<open>str.strip\<close> (\<open>is_space\<close>), \<open>\w\<close> (\<open>is_word\<close>), and the line
  boundaries of \<open>str.splitlines\<close> (\<open>is_linebreak\<close>).
\<close>

datatype error =
    IndexError
  | KeyError
  | TypeError
  | AssertionError
  | UnsupportedReviewer
  | CommandError
  | CalledProcessError

definition NUL :: char where
  "NUL = CHR 0x00"

definition LF :: char where
  "LF = CHR 0x0A"

definition CR :: char where
  "CR = CHR 0x0D"

definition is_space :: "char \<Rightarrow> bool" where
  "is_space c \<longleftrightarrow>
     (9 \<le> (of_char c :: nat) \<and> (of_char c :: nat) \<le> 13) \<or>
     (28 \<le> (of_char c :: nat) \<and> (of_char c :: nat) \<le> 32) \<or>
     (of_char c :: nat) = 133 \<or> (of_char c :: nat) = 160"

definition is_linebreak :: "char \<Rightarrow> bool" where
  "is_linebreak c \<longleftrightarrow>
     (10 \<le> (of_char c :: nat) \<and> (of_char c :: nat) \<le> 13) \<or>
     (28 \<le> (of_char c :: nat) \<and> (of_char c :: nat) \<le> 30) \<or>
     (of_char c :: nat) = 133"

definition is_ascii_alnum :: "char \<Rightarrow> bool" where
  "is_ascii_alnum c \<longleftrightarrow>
     (48 \<le> (of_char c :: nat) \<and> (of_char c :: nat) \<le> 57) \<or>
     (65 \<le> (of_char c :: nat) \<and> (of_char c :: nat) \<le> 90) \<or>
     (97 \<le> (of_char c :: nat) \<and> (of_char c :: nat) \<le> 122)"

text \<open>\<open>\w\<close>: alphanumeric (in Unicode's sense) or the underscore.\<close>

definition is_word :: "char \<Rightarrow> bool" where
  "is_word c \<longleftrightarrow>
     is_ascii_alnum c \<or> c = CHR ''_'' \<or>
     (of_char c :: nat) \<in> {170, 178, 179, 181, 185, 186, 188, 189, 190} \<or>
     (192 \<le> (of_char c :: nat) \<and> (of_char c :: nat) \<le> 214) \<or>
     (216 \<le> (of_char c :: nat) \<and> (of_char c :: nat) \<le> 246) \<or>
     248 \<le> (of_char c :: nat)"

text \<open>\<open>IRC_NICK = [a-zA-Z0-9\-\_]+\<close>: the class of one character of a nick.\<close>

definition is_nick :: "char \<Rightarrow> bool" where
  "is_nick c \<longleftrightarrow> is_ascii_alnum c \<or> c = CHR ''-'' \<or> c = CHR ''_''"

text \<open>\<open>LIST = [;,\/\\]\s*\<close>: the class of the delimiter character.\<close>

definition is_list :: "char \<Rightarrow> bool" where
  "is_list c \<longleftrightarrow> c = CHR '';'' \<or> c = CHR '','' \<or> c = CHR ''/'' \<or> c = CHR 0x5C"

text \<open>\<open>[\s\(\.\[;,]\<close>: the delimiter before a specifier (group 1 of \<open>REVIEWERS_RE\<close>).\<close>

definition is_before :: "char \<Rightarrow> bool" where
  "is_before c \<longleftrightarrow>
     is_space c \<or> c = CHR ''('' \<or> c = CHR ''.'' \<or> c = CHR ''['' \<or> c = CHR '';'' \<or> c = CHR '',''"

text \<open>\<open>[a-z0-9\.\-]\<close>: the class inside the lookahead \<open>(?![a-z0-9\.\-]+[=?])\<close>.\<close>

definition is_flagch :: "char \<Rightarrow> bool" where
  "is_flagch c \<longleftrightarrow>
     (97 \<le> (of_char c :: nat) \<and> (of_char c :: nat) \<le> 122) \<or>
     (48 \<le> (of_char c :: nat) \<and> (of_char c :: nat) \<le> 57) \<or>
     c = CHR ''.'' \<or> c = CHR ''-''"

definition is_eq_or_q :: "char \<Rightarrow> bool" where
  "is_eq_or_q c \<longleftrightarrow> c = CHR ''='' \<or> c = CHR ''?''"

text \<open>\<open>sep.join(xs)\<close>.\<close>

fun join :: "string \<Rightarrow> string list \<Rightarrow> string" where
  "join sep [] = []"
| "join sep [x] = x"
| "join sep (x # y # ys) = x @ sep @ join sep (y # ys)"

text \<open>\<open>s.strip()\<close>: leading and trailing whitespace removed.\<close>

definition strip :: "string \<Rightarrow> string" where
  "strip s = rev (dropWhile is_space (rev (dropWhile is_space s)))"

text \<open>
  \<open>s.splitlines()\<close>: the lines of \<open>s\<close> without their line breaks; CR LF is one break, and a
  break at the very end opens no further line. \<open>cur\<close> is the line read so far.
\<close>

function splitlines_from :: "string \<Rightarrow> string \<Rightarrow> string list" where
  "splitlines_from cur [] = (if cur = [] then [] else [cur])"
| "splitlines_from cur (c # cs) =
     (if is_linebreak c then
        cur # splitlines_from []
                (if c = CR \<and> (case cs of [] \<Rightarrow> False | d # _ \<Rightarrow> d = LF) then tl cs else cs)
      else splitlines_from (cur @ [c]) cs)"
  by pat_completeness auto
termination
  by (relation "measure (\<lambda>(cur, s). length s)") auto

definition splitlines :: "string \<Rightarrow> string list" where
  "splitlines s = splitlines_from [] s"

text \<open>\<open>xs.pop(0)\<close>: the first element and the list left; IndexError on the empty list.\<close>

definition pop0 :: "'a list \<Rightarrow> error + ('a \<times> 'a list)" where
  "pop0 xs = (case xs of [] \<Rightarrow> Inl IndexError | x # rest \<Rightarrow> Inr (x, rest))"

section \<open>The reviewer grammar\<close>

text \<open>
  \<open>R_SPECIFIER = \br[=?]\<close> tried at one position: \<open>prev_word\<close> says whether the character
  before the position is a word character (False at the start of the string). The letter r
  is a word character, so the boundary holds exactly when the previous character is not.
\<close>

definition R_SPECIFIER_at :: "bool \<Rightarrow> string \<Rightarrow> bool" where
  "R_SPECIFIER_at prev_word s \<longleftrightarrow>
     \<not> prev_word \<and>
     (case s of c # d # _ \<Rightarrow> c = CHR ''r'' \<and> is_eq_or_q d | _ \<Rightarrow> False)"

text \<open>\<open>R_SPECIFIER_RE.search(s)\<close>: some position of \<open>s\<close> matches.\<close>

fun R_SPECIFIER_search_from :: "bool \<Rightarrow> string \<Rightarrow> bool" where
  "R_SPECIFIER_search_from prev_word [] = False"
| "R_SPECIFIER_search_from prev_word (c # cs) =
     (R_SPECIFIER_at prev_word (c # cs) \<or> R_SPECIFIER_search_from (is_word c) cs)"

definition R_SPECIFIER_RE_search :: "string \<Rightarrow> bool" where
  "R_SPECIFIER_RE_search s = R_SPECIFIER_search_from False s"

text \<open>\<open>R_SPECIFIER_RE.match(s)\<close>: position 0 of \<open>s\<close> matches.\<close>

definition R_SPECIFIER_RE_match :: "string \<Rightarrow> bool" where
  "R_SPECIFIER_RE_match s = R_SPECIFIER_at False s"

text \<open>
  \<open>SPECIFIER = (?:r|a|sr|rs|ui-r)[=?]\<close> at the start of \<open>s\<close>: the alternatives are tried in
  the order written, each followed by \<open>=\<close> or \<open>?\<close>. The result is the matched text.
\<close>

fun SPECIFIER_alts :: "string list \<Rightarrow> string \<Rightarrow> string option" where
  "SPECIFIER_alts [] s = None"
| "SPECIFIER_alts (a # alts) s =
     (if take (length a) s = a \<and>
         (case drop (length a) s of [] \<Rightarrow> False | d # _ \<Rightarrow> is_eq_or_q d)
      then Some (take (Suc (length a)) s)
      else SPECIFIER_alts alts s)"

definition SPECIFIER :: "string \<Rightarrow> string option" where
  "SPECIFIER s = SPECIFIER_alts [''r'', ''a'', ''sr'', ''rs'', ''ui-r''] s"

text \<open>
  One reviewer, \<open>#?[a-zA-Z0-9\-\_]+!?\<close>, at the start of \<open>s\<close>: the matched text. Each part is
  greedy, and giving a part up never lets the rest match, so there is one way to match.
\<close>

definition reviewer :: "string \<Rightarrow> string option" where
  "reviewer s =
     (let hash = (case s of [] \<Rightarrow> [] | c # _ \<Rightarrow> if c = CHR ''#'' then [c] else []);
          s1 = drop (length hash) s;
          nick = takeWhile is_nick s1;
          s2 = dropWhile is_nick s1;
          bang = (case s2 of [] \<Rightarrow> [] | c # _ \<Rightarrow> if c = CHR ''!'' then [c] else [])
      in if nick = [] then None else Some (hash @ nick @ bang))"

text \<open>The lookahead body \<open>[a-z0-9\.\-]+[=?]\<close> matches at the start of \<open>s\<close>.\<close>

definition next_flag :: "string \<Rightarrow> bool" where
  "next_flag s \<longleftrightarrow>
     takeWhile is_flagch s \<noteq> [] \<and>
     (case dropWhile is_flagch s of [] \<Rightarrow> False | d # _ \<Rightarrow> is_eq_or_q d)"

text \<open>
  The additional reviewers \<open>(?:LIST(?!...)#?NICK!?)*\<close> at the start of \<open>s\<close>: the text of
  all the iterations that match, as many as possible.
\<close>

function additional_reviewers :: "string \<Rightarrow> string" where
  "additional_reviewers [] = []"
| "additional_reviewers (c # t) =
     (if \<not> is_list c then []
      else if next_flag (dropWhile is_space t) then []
      else case reviewer (dropWhile is_space t) of
             None \<Rightarrow> []
           | Some tok \<Rightarrow>
               c # takeWhile is_space t @ tok @
               additional_reviewers (drop (length tok) (dropWhile is_space t)))"
  by pat_completeness auto
termination
  by (relation "measure length")
     (auto simp: less_Suc_eq_le intro!: le_trans [OF diff_le_self length_dropWhile_le])

text \<open>Group 3 of \<open>REVIEWERS_RE\<close>, the optional list of reviewers (empty when absent).\<close>

definition reviewers_group :: "string \<Rightarrow> string" where
  "reviewers_group s =
     (case reviewer s of
        None \<Rightarrow> []
      | Some tok \<Rightarrow> tok @ additional_reviewers (drop (length tok) s))"

text \<open>
  \<open>REVIEWERS_RE\<close> tried at the start of \<open>s\<close>: the groups 1 (delimiter), 2 (specifier) and 3
  (reviewers) of the match; the whole match is their concatenation.
\<close>

definition REVIEWERS_RE_match :: "string \<Rightarrow> (string \<times> string \<times> string) option" where
  "REVIEWERS_RE_match s =
     (case s of
        [] \<Rightarrow> None
      | c # cs \<Rightarrow>
          if \<not> is_before c then None
          else case SPECIFIER cs of
                 None \<Rightarrow> None
               | Some flag \<Rightarrow> Some ([c], flag, reviewers_group (drop (length flag) cs)))"

section \<open>\<open>replace_reviewers\<close>\<close>

text \<open>
  The callback \<open>replace_first_reviewer\<close> on a match with the groups \<open>(g1, g2, g3)\<close>: the
  replacement text and the new value of the flag \<open>d["first"]\<close>.
\<close>

definition replace_first_reviewer ::
  "string \<Rightarrow> bool \<Rightarrow> string \<times> string \<times> string \<Rightarrow> string \<times> bool" where
  "replace_first_reviewer reviewers_str first m =
     (case m of (g1, g2, g3) \<Rightarrow>
        if R_SPECIFIER_RE_match g2 then
          (if first then (g1 @ reviewers_str, False) else ([NUL], first))
        else (g1 @ g2 @ g3, first))"

text \<open>
  \<open>re.sub(REVIEWERS_RE, replace_first_reviewer, s)\<close>: the matches are found from left to
  right, each search starting where the last match ended; the text between matches is
  copied.
\<close>

function sub_reviewers :: "bool \<Rightarrow> string \<Rightarrow> string \<Rightarrow> string" where
  "sub_reviewers first reviewers_str [] = []"
| "sub_reviewers first reviewers_str (c # cs) =
     (case REVIEWERS_RE_match (c # cs) of
        None \<Rightarrow> c # sub_reviewers first reviewers_str cs
      | Some (g1, g2, g3) \<Rightarrow>
          fst (replace_first_reviewer reviewers_str first (g1, g2, g3)) @
          sub_reviewers (snd (replace_first_reviewer reviewers_str first (g1, g2, g3)))
            reviewers_str (drop (length g2 + length g3) cs))"
  by pat_completeness auto
termination
  by (relation "measure (\<lambda>(first, reviewers_str, s). length s)") auto

text \<open>\<open>re.sub(LIST + "\0", "", s)\<close>: a list delimiter, whitespace and the marker are removed.\<close>

function sub_list_marker :: "string \<Rightarrow> string" where
  "sub_list_marker [] = []"
| "sub_list_marker (c # cs) =
     (if is_list c \<and> (case dropWhile is_space cs of [] \<Rightarrow> False | d # _ \<Rightarrow> d = NUL)
      then sub_list_marker (tl (dropWhile is_space cs))
      else c # sub_list_marker cs)"
  by pat_completeness auto
termination
  by (relation "measure length")
     (auto simp: less_Suc_eq_le intro!: le_trans [OF diff_le_self length_dropWhile_le])

text \<open>\<open>re.sub("\0", "", s)\<close>.\<close>

definition sub_marker :: "string \<Rightarrow> string" where
  "sub_marker s = filter (\<lambda>c. c \<noteq> NUL) s"

definition reviewers_str_of :: "string list \<Rightarrow> string" where
  "reviewers_str_of reviewers = (if reviewers = [] then [] else ''r='' @ join '','' reviewers)"

definition rewrite_summary :: "string \<Rightarrow> string \<Rightarrow> string" where
  "rewrite_summary reviewers_str commit_summary =
     (if \<not> R_SPECIFIER_RE_search commit_summary then commit_summary @ '' '' @ reviewers_str
      else sub_marker (sub_list_marker (sub_reviewers True reviewers_str commit_summary)))"

definition replace_reviewers :: "string \<Rightarrow> string list \<Rightarrow> error + string" where
  "replace_reviewers commit_description reviewers =
     (let reviewers_str = reviewers_str_of reviewers in
      if commit_description = [] then Inr reviewers_str
      else case pop0 (splitlines commit_description) of
             Inl e \<Rightarrow> Inl e
           | Inr (commit_summary, rest) \<Rightarrow>
               let body = join [LF] rest;
                   commit_summary = rewrite_summary reviewers_str commit_summary
               in if body = [] then Inr (strip commit_summary)
                  else Inr (strip commit_summary @ [LF] @ body))"

text \<open>
  The matches that \<open>re.sub(REVIEWERS_RE, ...)\<close> visits in \<open>s\<close>, from left to right (what
  \<open>REVIEWERS_RE.finditer(s)\<close> yields): the reviewer annotations of a summary line.
\<close>

function finditer_reviewers :: "string \<Rightarrow> (string \<times> string \<times> string) list" where
  "finditer_reviewers [] = []"
| "finditer_reviewers (c # cs) =
     (case REVIEWERS_RE_match (c # cs) of
        None \<Rightarrow> finditer_reviewers cs
      | Some (g1, g2, g3) \<Rightarrow>
          (g1, g2, g3) # finditer_reviewers (drop (length g2 + length g3) cs))"
  by pat_completeness auto
termination
  by (relation "measure length") auto

text \<open>The specifiers (group 2) of the annotations of a summary line, in order.\<close>

definition specifiers_of :: "string \<Rightarrow> string list" where
  "specifiers_of s = map (\<lambda>(g1, g2, g3). g2) (finditer_reviewers s)"

text \<open>
  A bare annotation is a match of \<open>REVIEWERS_RE\<close> whose specifier (group 2) is matched by
  \<open>R_SPECIFIER_RE\<close>: the matches that \<open>replace_first_reviewer\<close> replaces. \<open>bare_at s\<close>: there
  is one at the beginning of \<open>s\<close>; \<open>bare_from s\<close>: there is one somewhere in \<open>s\<close>.
\<close>

definition bare_at :: "string \<Rightarrow> bool" where
  "bare_at s =
     (case REVIEWERS_RE_match s of
        None \<Rightarrow> False
      | Some (g1, g2, g3) \<Rightarrow> R_SPECIFIER_RE_match g2)"

fun bare_from :: "string \<Rightarrow> bool" where
  "bare_from [] = False"
| "bare_from (c # cs) = (bare_at (c # cs) \<or> bare_from cs)"

text \<open>
  \<open>ends_list v\<close>: a reviewer list that stands before the text \<open>v\<close> ends there, whatever its
  names are. Group 3 of \<open>REVIEWERS_RE\<close> takes no further reviewer from \<open>v\<close>, and \<open>v\<close> does not
  begin with a character that continues the last name, is taken for its \<open>!\<close>, or lets the
  look-ahead for the next flag succeed on the last name.
\<close>

definition ends_list :: "string \<Rightarrow> bool" where
  "ends_list v \<longleftrightarrow>
     additional_reviewers v = [] \<and>
     (case v of
        [] \<Rightarrow> True
      | c # _ \<Rightarrow> \<not> (is_nick c \<or> is_flagch c \<or> c = CHR ''!'' \<or> is_eq_or_q c))"

section \<open>\<open>CommitClassifier.apply_phab\<close>\<close>

text \<open>
  The objects the function reads. \<open>base_revision\<close> and the author name of a commit may be
  \<open>None\<close>.
\<close>

record patch =
  patch_id :: nat
  phid :: string
  patch_diff :: string
  base_revision :: "string option"
  commits :: "(string option \<times> string) list"

record diff =
  diff_phid :: string
  revisionPHID :: string

record revision =
  revision_id :: nat
  title :: string
  summary :: string
  authorPHID :: string
  reviewerPHIDs :: "string list"

record user =
  realName :: string
  username :: string

text \<open>
  Every call to Phabricator, Mercurial (\<open>hg\<close>), the revision map and git, as the run makes
  it; a call that can fail carries its outcome (\<open>True\<close>: it succeeded). Calls to the logger and
  to \<open>hg.identify\<close> are not recorded.
\<close>

datatype event =
    SearchDiffs "string list"
  | LoadRevision string
  | LoadUser string
  | HgUpdate string bool
  | HgImport string string string bool
  | VcsMap string "string option"
  | GitCheckout string bool
  | GitApply string bool
  | GitCommit string string string bool

text \<open>
  The collaborators of one run. The Phabricator reads and \<open>hg.identify\<close> answer by their
  arguments (every \<open>hg.identify\<close> of a run comes before its first change to a repository); the
  outcome of a call that changes a repository may depend on all the calls made before it, so
  it takes the events so far. \<open>set_order\<close> is the order in which Python iterates a set, given
  its elements: a permutation of a list without duplicates.
\<close>

record env =
  load_patches_stack :: "nat \<Rightarrow> patch list"
  search_diffs :: "string list \<Rightarrow> diff list"
  load_revision :: "string \<Rightarrow> revision"
  api_load_user :: "string \<Rightarrow> user"
  set_order :: "string list \<Rightarrow> string list"
  hg_identify :: "string \<Rightarrow> bool"
  hg_update_ok :: "event list \<Rightarrow> string \<Rightarrow> bool"
  hg_import_ok :: "event list \<Rightarrow> string \<Rightarrow> string \<Rightarrow> string \<Rightarrow> bool"
  git_repo_dir :: "string option"
  mercurial_to_git :: "string \<Rightarrow> string option"
  git_checkout_ok :: "event list \<Rightarrow> string \<Rightarrow> bool"
  git_apply_ok :: "event list \<Rightarrow> string \<Rightarrow> bool"
  git_commit_ok :: "event list \<Rightarrow> string \<Rightarrow> string \<Rightarrow> string \<Rightarrow> bool"

text \<open>The truth value of an optional string: \<open>None\<close> and the empty string are false.\<close>

definition truthy :: "string option \<Rightarrow> bool" where
  "truthy x = (case x of None \<Rightarrow> False | Some s \<Rightarrow> s \<noteq> [])"

definition has_revision :: "env \<Rightarrow> string option \<Rightarrow> bool" where
  "has_revision e revision =
     (case revision of
        None \<Rightarrow> False
      | Some r \<Rightarrow> if r = [] then False else hg_identify e r)"

text \<open>
  The loop \<open>for patch in reversed(stack)\<close>: \<open>todo\<close> is what is left of the reversed stack,
  \<open>needed_stack\<close> the list built so far. The patch is inserted at the front first, then its
  base revision is looked up.
\<close>

fun find_needed :: "env \<Rightarrow> patch list \<Rightarrow> patch list \<Rightarrow> patch list" where
  "find_needed e [] needed_stack = needed_stack"
| "find_needed e (p # todo) needed_stack =
     (if has_revision e (base_revision p) then p # needed_stack
      else find_needed e todo (p # needed_stack))"

definition needed_stack_of :: "env \<Rightarrow> patch list \<Rightarrow> patch list" where
  "needed_stack_of e stack = find_needed e (rev stack) []"

text \<open>The dictionary \<open>revisions\<close>, one \<open>load_revision\<close> for each diff found.\<close>

definition load_revisions :: "env \<Rightarrow> diff list \<Rightarrow> (string \<rightharpoonup> revision)" where
  "load_revisions e diffs =
     fold (\<lambda>d m. m(diff_phid d \<mapsto> load_revision e (revisionPHID d))) diffs Map.empty"

text \<open>
  The try block that moves the git repository to the base revision: nothing it raises leaves
  it.
\<close>

definition git_update_base :: "env \<Rightarrow> event list \<Rightarrow> string \<Rightarrow> event list" where
  "git_update_base e log hg_base =
     (case mercurial_to_git e hg_base of
        None \<Rightarrow> log @ [VcsMap hg_base None]
      | Some git_base \<Rightarrow>
          log @ [VcsMap hg_base (Some git_base),
                 GitCheckout git_base (git_checkout_ok e (log @ [VcsMap hg_base (Some git_base)]) git_base)])"

text \<open>
  The local function \<open>load_user\<close>: a user, \<open>None\<close> for a group (a project), an exception
  for any other identifier.
\<close>

definition load_user :: "env \<Rightarrow> string \<Rightarrow> event list \<times> (error + user option)" where
  "load_user e p =
     (if take 9 p = ''PHID-USER'' then ([LoadUser p], Inr (Some (api_load_user e p)))
      else if take 9 p = ''PHID-PROJ'' then ([], Inr None)
      else ([], Inl UnsupportedReviewer))"

text \<open>The reviewers that are users, loaded in order; the groups are filtered out.\<close>

fun load_reviewers :: "env \<Rightarrow> string list \<Rightarrow> event list \<times> (error + user list)" where
  "load_reviewers e [] = ([], Inr [])"
| "load_reviewers e (p # ps) =
     (case load_user e p of
        (evs, Inl err) \<Rightarrow> (evs, Inl err)
      | (evs, Inr r) \<Rightarrow>
          (case load_reviewers e ps of
             (evs', Inl err) \<Rightarrow> (evs @ evs', Inl err)
           | (evs', Inr us) \<Rightarrow>
               (evs @ evs', Inr (case r of None \<Rightarrow> us | Some u \<Rightarrow> u # us))))"

text \<open>
  The author: of the first commit when it has a name, of the revision's author otherwise
  (subscripting the \<open>None\<close> that \<open>load_user\<close> returns for a group raises TypeError).
\<close>

definition load_author :: "env \<Rightarrow> patch \<Rightarrow> revision \<Rightarrow> event list \<times> (error + string \<times> string)" where
  "load_author e p r =
     (case (case commits p of [] \<Rightarrow> None | (name, email) # _ \<Rightarrow> map_option (\<lambda>n. (n, email)) name) of
        Some (author_name, author_email) \<Rightarrow> ([], Inr (author_name, author_email))
      | None \<Rightarrow>
          (case load_user e (authorPHID r) of
             (evs, Inl err) \<Rightarrow> (evs, Inl err)
           | (evs, Inr None) \<Rightarrow> (evs, Inl TypeError)
           | (evs, Inr (Some author)) \<Rightarrow> (evs, Inr (realName author, username author))))"

text \<open>\<open>set(names)\<close>, as the list of its elements in the order of iteration.\<close>

definition py_set :: "env \<Rightarrow> string list \<Rightarrow> string list" where
  "py_set e names = set_order e (remdups names)"

text \<open>
  The message of the commit: \<open>replace_reviewers\<close> is called when the set of the reviewers'
  user names is not empty (\<open>len\<close> of the set is the number of distinct names).
\<close>

definition commit_message :: "env \<Rightarrow> revision \<Rightarrow> user list \<Rightarrow> error + string" where
  "commit_message e r reviewers =
     (let message = title r @ [LF, LF] @ summary r;
          names = map username reviewers
      in if length (remdups names) \<noteq> 0 then replace_reviewers message (py_set e names)
         else Inr message)"

text \<open>The mirror of one patch in the git repository: \<open>git apply --3way\<close>, then \<open>git commit\<close>.\<close>

definition git_mirror ::
  "env \<Rightarrow> event list \<Rightarrow> patch \<Rightarrow> string \<Rightarrow> string \<Rightarrow> string \<Rightarrow> event list \<times> error option" where
  "git_mirror e log p author_name author_email message =
     (let applied = git_apply_ok e log (patch_diff p);
          log1 = log @ [GitApply (patch_diff p) applied]
      in if \<not> applied then (log1, Some CalledProcessError)
         else
           let committed = git_commit_ok e log1 author_name author_email message;
               log2 = log1 @ [GitCommit author_name author_email message committed]
           in if \<not> committed then (log2, Some CalledProcessError) else (log2, None))"

text \<open>The body of the loop \<open>for patch in needed_stack\<close>, from the events so far.\<close>

definition apply_patch ::
  "env \<Rightarrow> (string \<rightharpoonup> revision) \<Rightarrow> event list \<Rightarrow> patch \<Rightarrow> event list \<times> error option" where
  "apply_patch e revisions log p =
     (case revisions (phid p) of
        None \<Rightarrow> (log, Some KeyError)
      | Some r \<Rightarrow>
          (case load_author e p r of
             (evs1, Inl err) \<Rightarrow> (log @ evs1, Some err)
           | (evs1, Inr (author_name, author_email)) \<Rightarrow>
               (case load_reviewers e (reviewerPHIDs r) of
                  (evs2, Inl err) \<Rightarrow> (log @ evs1 @ evs2, Some err)
                | (evs2, Inr reviewers) \<Rightarrow>
                    (case commit_message e r reviewers of
                       Inl err \<Rightarrow> (log @ evs1 @ evs2, Some err)
                     | Inr message \<Rightarrow>
                         let log1 = log @ evs1 @ evs2;
                             user = author_name @ '' <'' @ author_email @ ''>'';
                             imported = hg_import_ok e log1 (patch_diff p) message user;
                             log2 = log1 @ [HgImport (patch_diff p) message user imported]
                         in if \<not> imported then (log2, Some CommandError)
                            else if truthy (git_repo_dir e)
                            then git_mirror e log2 p author_name author_email message
                            else (log2, None)))))"

fun apply_patches ::
  "env \<Rightarrow> (string \<rightharpoonup> revision) \<Rightarrow> event list \<Rightarrow> patch list \<Rightarrow> event list \<times> error option" where
  "apply_patches e revisions log [] = (log, None)"
| "apply_patches e revisions log (p # ps) =
     (case apply_patch e revisions log p of
        (log', Some err) \<Rightarrow> (log', Some err)
      | (log', None) \<Rightarrow> apply_patches e revisions log' ps)"

text \<open>
  \<open>apply_phab\<close>: the events of the run, and the exception that ended it (\<open>None\<close>: it
  returned).
\<close>

definition update_repo :: "env \<Rightarrow> event list \<Rightarrow> string option \<Rightarrow> event list \<times> error option" where
  "update_repo e log hg_base =
     (case hg_base of
        None \<Rightarrow> (log, None)
      | Some b \<Rightarrow>
          if b = [] then (log, None)
          else
            let updated = hg_update_ok e log b;
                log1 = log @ [HgUpdate b updated]
            in if \<not> updated then (log1, Some CommandError)
               else if truthy (git_repo_dir e) then (git_update_base e log1 b, None)
               else (log1, None))"

definition apply_phab :: "env \<Rightarrow> nat \<Rightarrow> event list \<times> error option" where
  "apply_phab e diff_id =
     (let stack = load_patches_stack e diff_id in
      if \<not> length stack > 0 then ([], Some AssertionError)
      else
        let needed_stack = needed_stack_of e stack in
        if needed_stack = [] then ([], None)
        else
          let diffs = search_diffs e (map phid stack);
              log0 = SearchDiffs (map phid stack) # map (\<lambda>d. LoadRevision (revisionPHID d)) diffs;
              revisions = load_revisions e diffs;
              hg_base = (if has_revision e (base_revision (hd needed_stack))
                         then base_revision (hd needed_stack) else Some ''tip'')
          in case update_repo e log0 hg_base of
               (log1, Some err) \<Rightarrow> (log1, Some err)
             | (log1, None) \<Rightarrow> apply_patches e revisions log1 needed_stack)"

text \<open>The commits made in the primary repository: the imports that succeeded.\<close>

definition hg_commits :: "event list \<Rightarrow> nat" where
  "hg_commits log =
     length (filter (\<lambda>ev. case ev of HgImport d m u ok \<Rightarrow> ok | _ \<Rightarrow> False) log)"

text \<open>The Phabricator identifiers for which review metadata was requested.\<close>

definition metadata_requests :: "event list \<Rightarrow> string list" where
  "metadata_requests log =
     concat (map (\<lambda>ev. case ev of SearchDiffs ps \<Rightarrow> ps | LoadRevision r \<Rightarrow> [r] | _ \<Rightarrow> []) log)"

section \<open>A stack of five patches\<close>

definition demo_patch :: "nat \<Rightarrow> string \<Rightarrow> patch" where
  "demo_patch i tag =
     \<lparr>patch_id = i, phid = ''PHID-DIFF-'' @ tag, patch_diff = ''diff '' @ tag,
      base_revision = Some (''base'' @ tag), commits = [(Some ''Ann'', ''ann@example.org'')]\<rparr>"

definition demo_stack :: "patch list" where
  "demo_stack =
     [demo_patch 0 ''0'', demo_patch 1 ''1'', demo_patch 2 ''2'', demo_patch 3 ''3'',
      demo_patch 4 ''4'']"

text \<open>
  An environment for \<open>demo_stack\<close>: \<open>known\<close> are the revisions of the Mercurial repository,
  \<open>rs\<close> the reviewers of every revision, \<open>git\<close> the directory of the git repository and
  \<open>apply_ok\<close> the patches that \<open>git apply\<close> accepts. Every other call succeeds.
\<close>

definition demo_env ::
  "(string \<Rightarrow> bool) \<Rightarrow> string list \<Rightarrow> string option \<Rightarrow> (string \<Rightarrow> bool) \<Rightarrow> env" where
  "demo_env known rs git apply_ok =
     \<lparr>load_patches_stack = (\<lambda>diff_id. demo_stack),
      search_diffs = map (\<lambda>p. \<lparr>diff_phid = p, revisionPHID = ''PHID-DREV-'' @ drop 10 p\<rparr>),
      load_revision = (\<lambda>r. \<lparr>revision_id = 1, title = ''Fix bug r=alice'', summary = ''Details'',
                            authorPHID = ''PHID-USER-ann'', reviewerPHIDs = rs\<rparr>),
      api_load_user = (\<lambda>p. \<lparr>realName = drop 10 p, username = drop 10 p\<rparr>),
      set_order = (\<lambda>names. names),
      hg_identify = known,
      hg_update_ok = (\<lambda>log r. True),
      hg_import_ok = (\<lambda>log d m u. True),
      git_repo_dir = git,
      mercurial_to_git = (\<lambda>r. Some (''git-'' @ r)),
      git_checkout_ok = (\<lambda>log r. True),
      git_apply_ok = (\<lambda>log d. apply_ok d),
      git_commit_ok = (\<lambda>log n m msg. True)\<rparr>"

text \<open>
  Three runs on \<open>demo_stack\<close>: the base of patch 2 is known; the same with a git repository
  whose \<open>git apply\<close> rejects the patch 3; the base of the top patch is known.
\<close>

definition env_base2 :: env where
  "env_base2 = demo_env ((=) ''base2'') [] None (\<lambda>d. True)"

definition env_git_fail :: env where
  "env_git_fail =
     demo_env ((=) ''base2'') [''PHID-USER-bob''] (Some ''gecko-dev'') ((\<noteq>) ''diff 3'')"

definition env_top_known :: env where
  "env_top_known = demo_env ((=) ''base4'') [] None (\<lambda>d. True)"

text \<open>
  A run with a git repository in which the revision map knows no revision; the base of the
  top patch is known.
\<close>

definition env_no_git_map :: env where
  "env_no_git_map =
     (demo_env ((=) ''base4'') [] (Some ''gecko-dev'') (\<lambda>d. True))
       \<lparr>mercurial_to_git := (\<lambda>r. None)\<rparr>"

text \<open>The dictionary \<open>revisions\<close> of the run with the git repository.\<close>

definition demo_revisions :: "string \<rightharpoonup> revision" where
  "demo_revisions = load_revisions env_git_fail (search_diffs env_git_fail (map phid demo_stack))"

section \<open>Rewriting on given messages\<close>

text \<open>
  C9. For the summary line \<open>Fix bug r=alice r=bob\<close> and the empty reviewer set,
  \<open>replace_reviewers\<close> returns \<open>Fix bug\<close>: both \<open>r=\<close> annotations are gone and the
  whitespace left at the end is trimmed.
\<close>

theorem replace_reviewers_empty_set_example:
  "replace_reviewers ''Fix bug r=alice r=bob'' [] = Inr ''Fix bug''"
  by code_simp

section \<open>The walk over the stack\<close>

lemma find_needed_stop:
  "has_revision e (base_revision p) \<Longrightarrow> \<forall>q \<in> set ys. \<not> has_revision e (base_revision q) \<Longrightarrow>
   find_needed e (rev ys @ p # rest) acc = p # ys @ acc"
  by (induction ys arbitrary: acc rule: rev_induct) auto

text \<open>
  The walk stops at the topmost patch whose base revision is known, and that patch is part of
  the needed list.
\<close>

lemma needed_stack_of_drop:
  assumes "k < length stack" and "has_revision e (base_revision (stack ! k))"
    and "\<forall>j. k < j \<and> j < length stack \<longrightarrow> \<not> has_revision e (base_revision (stack ! j))"
  shows "needed_stack_of e stack = drop k stack"
proof -
  have split: "stack = take k stack @ stack ! k # drop (Suc k) stack"
    using assms(1) by (simp add: id_take_nth_drop)
  have none: "\<forall>q \<in> set (drop (Suc k) stack). \<not> has_revision e (base_revision q)"
  proof
    fix q assume "q \<in> set (drop (Suc k) stack)"
    then obtain i where "i < length (drop (Suc k) stack)" "q = drop (Suc k) stack ! i"
      by (auto simp: in_set_conv_nth)
    then show "\<not> has_revision e (base_revision q)"
      using assms(3) by (auto simp: nth_drop)
  qed
  have "rev stack = rev (drop (Suc k) stack) @ stack ! k # rev (take k stack)"
    by (subst split) simp
  then have "needed_stack_of e stack = stack ! k # drop (Suc k) stack"
    unfolding needed_stack_of_def using find_needed_stop [OF assms(2) none] by simp
  then show ?thesis
    using assms(1) by (simp add: Cons_nth_drop_Suc)
qed

text \<open>The branch \<open>if not needed_stack\<close> is never taken: the stack is not empty.\<close>

lemma needed_stack_of_nonempty: "stack \<noteq> [] \<Longrightarrow> needed_stack_of e stack \<noteq> []"
proof -
  have "find_needed e todo acc \<noteq> []" if "todo \<noteq> [] \<or> acc \<noteq> []" for todo acc
    using that by (induction todo arbitrary: acc) auto
  then show "stack \<noteq> [] \<Longrightarrow> needed_stack_of e stack \<noteq> []"
    by (simp add: needed_stack_of_def)
qed

text \<open>
  C1, as amended. For every stack of 5 patches in which the base revision of the patch at
  index 2 is present in the Mercurial repository and the checks of the patches 4 and 3, made
  before, fail, the walk leaves the needed list with the patches at the indices 2, 3 and 4, in
  that order: the patch whose base is found is inserted before its base is checked.
\<close>

theorem needed_stack_from_known_base:
  assumes "length stack = 5"
    and "has_revision e (base_revision (stack ! 2))"
    and "\<not> has_revision e (base_revision (stack ! 3))"
    and "\<not> has_revision e (base_revision (stack ! 4))"
  shows "needed_stack_of e stack = [stack ! 2, stack ! 3, stack ! 4]"
proof -
  have later: "\<forall>j. 2 < j \<and> j < length stack \<longrightarrow> \<not> has_revision e (base_revision (stack ! j))"
  proof (intro allI impI)
    fix j assume "2 < j \<and> j < length stack"
    then have "j = 3 \<or> j = 4" using assms(1) by arith
    then show "\<not> has_revision e (base_revision (stack ! j))"
      using assms(3,4) by auto
  qed
  have "needed_stack_of e stack = drop 2 stack"
    using needed_stack_of_drop [of 2 stack e] assms(1,2) later by simp
  moreover obtain a b c d f where "stack = [a, b, c, d, f]"
    using assms(1) by (auto simp: length_Suc_conv numeral_eq_Suc)
  ultimately show ?thesis by simp
qed

theorem needed_stack_from_known_base_witness:
  "length demo_stack = 5 \<and>
   has_revision env_base2 (base_revision (demo_stack ! 2)) \<and>
   \<not> has_revision env_base2 (base_revision (demo_stack ! 3)) \<and>
   \<not> has_revision env_base2 (base_revision (demo_stack ! 4)) \<and>
   needed_stack_of env_base2 demo_stack = [demo_stack ! 2, demo_stack ! 3, demo_stack ! 4]"
proof -
  have h1: "length demo_stack = 5" by code_simp
  have h2: "has_revision env_base2 (base_revision (demo_stack ! 2))" by code_simp
  have h3: "\<not> has_revision env_base2 (base_revision (demo_stack ! 3))" by code_simp
  have h4: "\<not> has_revision env_base2 (base_revision (demo_stack ! 4))" by code_simp
  from needed_stack_from_known_base [OF h1 h2 h3 h4] h1 h2 h3 h4 show ?thesis by blast
qed

text \<open>
  C1 as stated fails on \<open>demo_stack\<close> when only \<open>base2\<close> is known: the needed list is not
  the patches 3 and 4.
\<close>

theorem needed_stack_not_only_above_known_base:
  "length demo_stack = 5 \<and>
   has_revision env_base2 (base_revision (demo_stack ! 2)) \<and>
   \<not> has_revision env_base2 (base_revision (demo_stack ! 3)) \<and>
   \<not> has_revision env_base2 (base_revision (demo_stack ! 4)) \<and>
   needed_stack_of env_base2 demo_stack \<noteq> [demo_stack ! 3, demo_stack ! 4]"
  by code_simp

section \<open>The events of a run\<close>

lemma git_mirror_events:
  "\<exists>evs. fst (git_mirror e log p n m msg) = log @ evs \<and>
         (\<forall>ev \<in> set evs. (\<exists>d ok. ev = GitApply d ok) \<or> (\<exists>a b c ok. ev = GitCommit a b c ok))"
  by (auto simp: git_mirror_def Let_def)

lemma apply_patch_prefix: "\<exists>evs. fst (apply_patch e revisions log p) = log @ evs"
proof -
  have "\<exists>evs. fst (git_mirror e (log @ xs) p n m msg) = log @ evs" for xs n m msg
    using git_mirror_events [of e "log @ xs" p n m msg] by auto
  then show ?thesis
    by (auto simp: apply_patch_def Let_def split: option.splits prod.splits sum.splits)
qed

lemma apply_patches_prefix: "\<exists>evs. fst (apply_patches e revisions log ps) = log @ evs"
proof (induction ps arbitrary: log)
  case Nil
  then show ?case by simp
next
  case (Cons p ps)
  obtain log' r where step: "apply_patch e revisions log p = (log', r)"
    by (cases "apply_patch e revisions log p")
  obtain evs where evs: "log' = log @ evs"
    using apply_patch_prefix [of e revisions log p] step by auto
  show ?case
  proof (cases r)
    case None
    obtain evs' where "fst (apply_patches e revisions log' ps) = log' @ evs'"
      using Cons.IH by blast
    then show ?thesis using step None evs by simp
  next
    case (Some err)
    then show ?thesis using step evs by simp
  qed
qed

lemma update_repo_prefix: "\<exists>evs. fst (update_repo e log hg_base) = log @ evs"
  by (auto simp: update_repo_def git_update_base_def Let_def split: option.splits)

lemma apply_patches_single: "apply_patches e revisions log [p] = apply_patch e revisions log p"
  by (cases "apply_patch e revisions log p") (auto split: option.splits)

text \<open>
  C5, as amended. Review metadata is requested for every patch of the stack, not only for the
  needed list: for every non-empty stack the run begins with \<open>search_diffs\<close> on the identifiers
  of all its patches, and one \<open>load_revision\<close> for each diff that comes back, wherever the
  walk stopped.
\<close>

theorem metadata_requested_for_whole_stack:
  assumes "load_patches_stack e diff_id = stack" and "stack \<noteq> []"
  shows "\<exists>evs. fst (apply_phab e diff_id) =
           SearchDiffs (map phid stack) #
           map (\<lambda>d. LoadRevision (revisionPHID d)) (search_diffs e (map phid stack)) @ evs"
proof -
  let ?log0 = "SearchDiffs (map phid stack) #
           map (\<lambda>d. LoadRevision (revisionPHID d)) (search_diffs e (map phid stack))"
  let ?base = "if has_revision e (base_revision (hd (needed_stack_of e stack)))
               then base_revision (hd (needed_stack_of e stack)) else Some ''tip''"
  let ?revs = "load_revisions e (search_diffs e (map phid stack))"
  obtain log1 r where upd: "update_repo e ?log0 ?base = (log1, r)"
    by (cases "update_repo e ?log0 ?base")
  obtain evs1 where evs1: "log1 = ?log0 @ evs1"
    using update_repo_prefix [of e ?log0 ?base] upd by auto
  obtain evs2 where evs2: "fst (apply_patches e ?revs log1 (needed_stack_of e stack)) = log1 @ evs2"
    using apply_patches_prefix by blast
  have "needed_stack_of e stack \<noteq> []"
    using assms(2) by (rule needed_stack_of_nonempty)
  then show ?thesis
    using assms upd evs1 evs2
    by (cases r) (simp_all add: apply_phab_def Let_def)
qed

theorem metadata_requested_for_whole_stack_witness:
  "load_patches_stack env_top_known 0 = demo_stack \<and> demo_stack \<noteq> [] \<and>
   (\<exists>evs. fst (apply_phab env_top_known 0) =
           SearchDiffs (map phid demo_stack) #
           map (\<lambda>d. LoadRevision (revisionPHID d))
             (search_diffs env_top_known (map phid demo_stack)) @ evs)"
proof -
  have h1: "load_patches_stack env_top_known 0 = demo_stack" by code_simp
  have h2: "demo_stack \<noteq> []" by code_simp
  from metadata_requested_for_whole_stack [OF h1 h2] h1 h2 show ?thesis by blast
qed

text \<open>
  C5 as stated fails on \<open>demo_stack\<close> when the base of the top patch is known: the walk stops
  at the top patch, and the metadata of the bottom patch is requested all the same.
\<close>

theorem metadata_requested_below_known_base:
  "needed_stack_of env_top_known (load_patches_stack env_top_known 0) = [demo_stack ! 4] \<and>
   phid (demo_stack ! 0) \<in> set (metadata_requests (fst (apply_phab env_top_known 0))) \<and>
   LoadRevision ''PHID-DREV-0'' \<in> set (fst (apply_phab env_top_known 0))"
  by code_simp

text \<open>
  C6, as amended. For every non-empty stack whose top patch has a base revision present in
  the Mercurial repository, the needed list after the walk is the top patch alone, never
  empty, and the run is not a no-op: it requests the metadata, updates the repository to that
  base and applies the top patch.
\<close>

theorem known_top_base_applies_top_patch:
  assumes "load_patches_stack e diff_id = stack" and "stack \<noteq> []"
    and "has_revision e (base_revision (last stack))"
  shows "needed_stack_of e stack = [last stack] \<and>
         apply_phab e diff_id =
           (case update_repo e
                   (SearchDiffs (map phid stack) #
                    map (\<lambda>d. LoadRevision (revisionPHID d)) (search_diffs e (map phid stack)))
                   (base_revision (last stack)) of
              (log1, Some err) \<Rightarrow> (log1, Some err)
            | (log1, None) \<Rightarrow>
                apply_patch e (load_revisions e (search_diffs e (map phid stack))) log1
                  (last stack))"
proof -
  obtain xs x where "stack = xs @ [x]"
    using assms(2) by (cases stack rule: rev_cases) auto
  then have needed: "needed_stack_of e stack = [last stack]"
    using assms(3) by (simp add: needed_stack_of_def)
  show ?thesis
    using assms needed
    by (auto simp: apply_phab_def Let_def apply_patches_single split: prod.splits option.splits)
qed

theorem known_top_base_applies_top_patch_witness:
  "load_patches_stack env_top_known 0 = demo_stack \<and> demo_stack \<noteq> [] \<and>
   has_revision env_top_known (base_revision (last demo_stack)) \<and>
   needed_stack_of env_top_known demo_stack = [last demo_stack] \<and>
   apply_phab env_top_known 0 =
     (case update_repo env_top_known
             (SearchDiffs (map phid demo_stack) #
              map (\<lambda>d. LoadRevision (revisionPHID d))
                (search_diffs env_top_known (map phid demo_stack)))
             (base_revision (last demo_stack)) of
        (log1, Some err) \<Rightarrow> (log1, Some err)
      | (log1, None) \<Rightarrow>
          apply_patch env_top_known
            (load_revisions env_top_known (search_diffs env_top_known (map phid demo_stack))) log1
            (last demo_stack))"
proof -
  have h1: "load_patches_stack env_top_known 0 = demo_stack" by code_simp
  have h2: "demo_stack \<noteq> []" by code_simp
  have h3: "has_revision env_top_known (base_revision (last demo_stack))" by code_simp
  from known_top_base_applies_top_patch [OF h1 h2 h3] h1 h2 h3 show ?thesis by blast
qed

text \<open>
  C6 as stated fails on \<open>demo_stack\<close> when the base of the top patch is known: the needed
  list is not empty, the repository is updated and one patch is committed.
\<close>

theorem known_top_base_is_not_a_noop:
  "load_patches_stack env_top_known 0 \<noteq> [] \<and>
   has_revision env_top_known (base_revision (last (load_patches_stack env_top_known 0))) \<and>
   needed_stack_of env_top_known (load_patches_stack env_top_known 0) \<noteq> [] \<and>
   HgUpdate ''base4'' True \<in> set (fst (apply_phab env_top_known 0)) \<and>
   hg_commits (fst (apply_phab env_top_known 0)) = 1 \<and>
   snd (apply_phab env_top_known 0) = None"
  by code_simp

section \<open>The commits of a run\<close>


lemma load_user_LoadUser: "ev \<in> set (fst (load_user e p)) \<Longrightarrow> \<exists>q. ev = LoadUser q"
  by (auto simp: load_user_def split: if_splits)


lemma load_reviewers_LoadUser: "ev \<in> set (fst (load_reviewers e ps)) \<Longrightarrow> \<exists>q. ev = LoadUser q"
proof (induction ps arbitrary: ev)
  case Nil
  then show ?case by simp
next
  case (Cons p ps)
  then show ?case
    using load_user_LoadUser [of ev e p]
    by (auto split: prod.splits sum.splits)
qed


lemma load_author_LoadUser: "ev \<in> set (fst (load_author e p r)) \<Longrightarrow> \<exists>q. ev = LoadUser q"
  using load_user_LoadUser [of ev e "authorPHID r"]
  by (auto simp: load_author_def split: option.splits prod.splits sum.splits list.splits)










text \<open>
  With a git repository configured, a patch that goes through has been committed there too,
  whatever happened before: a miss of the revision map does not switch the mirroring off.
\<close>

lemma mirrored_when_configured:
  assumes "truthy (git_repo_dir e)" and "snd (apply_patch e revisions log p) = None"
  shows "\<exists>n m msg. last (fst (apply_patch e revisions log p)) = GitCommit n m msg True"
proof -
  have g: "snd (git_mirror e l p n m msg) = None \<Longrightarrow>
           last (fst (git_mirror e l p n m msg)) = GitCommit n m msg True" for l n m msg
    by (auto simp: git_mirror_def Let_def split: if_splits)
  show ?thesis
    using assms g
    by (auto simp: apply_patch_def Let_def split: option.splits prod.splits sum.splits if_splits)
qed

lemma translation_miss_keeps_mirroring:
  "apply_phab env_no_git_map 0 =
     ([SearchDiffs (map phid demo_stack),
       LoadRevision ''PHID-DREV-0'', LoadRevision ''PHID-DREV-1'', LoadRevision ''PHID-DREV-2'',
       LoadRevision ''PHID-DREV-3'', LoadRevision ''PHID-DREV-4'',
       HgUpdate ''base4'' True, VcsMap ''base4'' None,
       HgImport ''diff 4'' (''Fix bug r=alice'' @ [LF, LF] @ ''Details'')
         ''Ann <ann@example.org>'' True,
       GitApply ''diff 4'' True,
       GitCommit ''Ann'' ''ann@example.org'' (''Fix bug r=alice'' @ [LF, LF] @ ''Details'') True],
      None)"
  by code_simp




section \<open>The message of a commit\<close>

lemma remdups_Nil_iff: "remdups xs = [] \<longleftrightarrow> xs = []"
  by (metis set_remdups set_empty)

text \<open>
  C3, as amended. For every patch of the needed list, the commit message handed to
  \<open>hg.import_\<close> is: when the set of the user names of its reviewers that are users is not
  empty, the result of \<open>replace_reviewers\<close> on title, two newlines and summary with that set;
  when the set is empty, title, two newlines and summary as they are, not rewritten.
\<close>

theorem import_message:
  assumes "revisions (phid p) = Some r"
    and "HgImport d m u ok \<in> set (drop (length log) (fst (apply_patch e revisions log p)))"
  shows "\<exists>reviewers. snd (load_reviewers e (reviewerPHIDs r)) = Inr reviewers \<and>
           (if map username reviewers = [] then m = title r @ [LF, LF] @ summary r
            else replace_reviewers (title r @ [LF, LF] @ summary r)
                   (py_set e (map username reviewers)) = Inr m)"
proof -
  obtain evs1 a where la: "load_author e p r = (evs1, a)" by (cases "load_author e p r")
  obtain evs2 b where lr: "load_reviewers e (reviewerPHIDs r) = (evs2, b)"
    by (cases "load_reviewers e (reviewerPHIDs r)")
  have n1: "HgImport d m u ok \<notin> set evs1"
    using load_author_LoadUser [of "HgImport d m u ok" e p r] la by auto
  have n2: "HgImport d m u ok \<notin> set evs2"
    using load_reviewers_LoadUser [of "HgImport d m u ok" e "reviewerPHIDs r"] lr by auto
  show ?thesis
  proof (cases a)
    case (Inl err)
    then show ?thesis using assms la n1 by (simp add: apply_patch_def)
  next
    case (Inr na)
    obtain author_name author_email where na: "na = (author_name, author_email)" by (cases na)
    show ?thesis
    proof (cases b)
      case (Inl err)
      then show ?thesis using assms la lr Inr na n1 n2 by (simp add: apply_patch_def)
    next
      case us: (Inr us)
      show ?thesis
      proof (cases "commit_message e r us")
        case (Inl err)
        then show ?thesis using assms la lr Inr na us n1 n2 by (simp add: apply_patch_def)
      next
        case msg: (Inr message)
        let ?user = "author_name @ '' <'' @ author_email @ ''>''"
        let ?log2 = "log @ evs1 @ evs2 @
                     [HgImport (patch_diff p) message ?user
                        (hg_import_ok e (log @ evs1 @ evs2) (patch_diff p) message ?user)]"
        obtain evs3
          where g: "fst (git_mirror e ?log2 p author_name author_email message) = ?log2 @ evs3"
            and g3: "\<forall>ev \<in> set evs3.
                       (\<exists>d ok. ev = GitApply d ok) \<or> (\<exists>a b c ok. ev = GitCommit a b c ok)"
          using git_mirror_events [of e ?log2 p author_name author_email message] by blast
        have n3: "HgImport d m u ok \<notin> set evs3" using g3 by auto
        have "m = message"
          using assms la lr Inr na us msg n1 n2 n3 g
          by (auto simp: apply_patch_def Let_def split: if_splits)
        moreover have "if map username us = [] then message = title r @ [LF, LF] @ summary r
            else replace_reviewers (title r @ [LF, LF] @ summary r)
                   (py_set e (map username us)) = Inr message"
          using msg by (auto simp: commit_message_def Let_def remdups_Nil_iff split: if_splits)
        ultimately show ?thesis using lr us by auto
      qed
    qed
  qed
qed

theorem import_message_witness:
  "demo_revisions (phid (demo_stack ! 2)) = Some (load_revision env_git_fail ''PHID-DREV-2'') \<and>
   HgImport ''diff 2'' (''Fix bug r=bob'' @ [LF, LF] @ ''Details'') ''Ann <ann@example.org>'' True
     \<in> set (drop (length [])
              (fst (apply_patch env_git_fail demo_revisions [] (demo_stack ! 2)))) \<and>
   (\<exists>reviewers.
      snd (load_reviewers env_git_fail
             (reviewerPHIDs (load_revision env_git_fail ''PHID-DREV-2''))) = Inr reviewers \<and>
      (if map username reviewers = []
       then ''Fix bug r=bob'' @ [LF, LF] @ ''Details'' =
            title (load_revision env_git_fail ''PHID-DREV-2'') @ [LF, LF] @
            summary (load_revision env_git_fail ''PHID-DREV-2'')
       else replace_reviewers
              (title (load_revision env_git_fail ''PHID-DREV-2'') @ [LF, LF] @
               summary (load_revision env_git_fail ''PHID-DREV-2''))
              (py_set env_git_fail (map username reviewers)) =
            Inr (''Fix bug r=bob'' @ [LF, LF] @ ''Details'')))"
proof -
  have h1: "demo_revisions (phid (demo_stack ! 2)) =
              Some (load_revision env_git_fail ''PHID-DREV-2'')"
    by code_simp
  have h2: "HgImport ''diff 2'' (''Fix bug r=bob'' @ [LF, LF] @ ''Details'')
              ''Ann <ann@example.org>'' True
            \<in> set (drop (length [])
                     (fst (apply_patch env_git_fail demo_revisions [] (demo_stack ! 2))))"
    by code_simp
  from import_message [OF h1 h2] h1 h2 show ?thesis by blast
qed

text \<open>
  C3 as stated fails on the top patch of \<open>demo_stack\<close> in a run where no revision has a
  reviewer: the message that is imported keeps \<open>r=alice\<close>, which \<open>replace_reviewers\<close> with
  the empty set would remove.
\<close>

theorem import_message_not_rewritten_without_reviewers:
  "apply_patch env_top_known
     (load_revisions env_top_known (search_diffs env_top_known (map phid demo_stack))) []
     (demo_stack ! 4) =
     ([HgImport ''diff 4'' (''Fix bug r=alice'' @ [LF, LF] @ ''Details'')
         ''Ann <ann@example.org>'' True], None) \<and>
   replace_reviewers (''Fix bug r=alice'' @ [LF, LF] @ ''Details'') [] =
     Inr (''Fix bug'' @ [LF, LF] @ ''Details'')"
  by code_simp

section \<open>The matches of the grammar\<close>

lemma is_before_not_word: "is_before c \<Longrightarrow> \<not> is_word c"
  by (auto simp: is_before_def is_word_def is_space_def is_ascii_alnum_def)

lemma is_nick_props:
  "is_nick c \<Longrightarrow> \<not> is_space c \<and> \<not> is_list c \<and> c \<noteq> NUL \<and> \<not> is_eq_or_q c \<and> \<not> is_linebreak c"
  by (auto simp: is_nick_def is_space_def is_list_def NUL_def is_eq_or_q_def is_linebreak_def
        is_ascii_alnum_def)

lemma is_space_props: "is_space c \<Longrightarrow> c \<noteq> NUL \<and> \<not> is_list c \<and> \<not> is_eq_or_q c"
  by (auto simp: is_space_def NUL_def is_list_def is_eq_or_q_def)



lemma dropWhile_hd: "xs \<noteq> [] \<Longrightarrow> \<not> P (hd xs) \<Longrightarrow> dropWhile P xs = xs"
  by (cases xs) auto

lemma strip_id: 
  assumes "s \<noteq> []" and "\<not> is_space (hd s)" and "\<not> is_space (last s)"
  shows "strip s = s"
proof -
  have 1: "dropWhile is_space s = s"
    using assms by (simp add: dropWhile_hd)
  have 2: "dropWhile is_space (rev s) = rev s"
    using assms by (intro dropWhile_hd) (simp_all add: hd_rev)
  show ?thesis by (simp add: strip_def 1 2)
qed

lemma SPECIFIER_alts_SomeD:
  "SPECIFIER_alts alts s = Some g \<Longrightarrow>
   \<exists>a d rest. a \<in> set alts \<and> is_eq_or_q d \<and> g = a @ [d] \<and> s = g @ rest"
proof (induction alts)
  case Nil
  then show ?case by simp
next
  case (Cons a alts)
  show ?case
  proof (cases "take (length a) s = a \<and> (case drop (length a) s of [] \<Rightarrow> False | d # _ \<Rightarrow> is_eq_or_q d)")
    case True
    then obtain d rest where d: "drop (length a) s = d # rest" "is_eq_or_q d"
      by (auto split: list.splits)
    have "take (length a) s @ drop (length a) s = s" by simp
    then have s: "s = a @ d # rest"
      using True d(1) by simp
    have "g = take (Suc (length a)) s" using Cons.prems True by simp
    then have "g = a @ [d]" by (subst (asm) s) simp
    then show ?thesis using d(2) s by auto
  next
    case False
    then have "SPECIFIER_alts alts s = Some g" using Cons.prems by (auto split: if_splits)
    from Cons.IH [OF this] show ?thesis by auto
  qed
qed

lemma SPECIFIER_SomeD:
  assumes "SPECIFIER s = Some g"
  shows "\<exists>a d rest. a \<in> {''r'', ''a'', ''sr'', ''rs'', ''ui-r''} \<and> is_eq_or_q d \<and> g = a @ [d] \<and> s = g @ rest"
  using SPECIFIER_alts_SomeD [OF assms [unfolded SPECIFIER_def]] by simp

lemma reviewer_SomeD:
  assumes "reviewer s = Some tok"
  shows "\<exists>h n b rest. tok = h @ n @ b \<and> s = tok @ rest \<and> (h = [] \<or> h = ''#'') \<and> n \<noteq> [] \<and>
           (\<forall>c \<in> set n. is_nick c) \<and> (b = [] \<or> b = ''!'') \<and>
           (rest \<noteq> [] \<longrightarrow> \<not> is_nick (hd rest) \<or> b = ''!'')"
proof -
  define h where "h = (case s of [] \<Rightarrow> [] | c # _ \<Rightarrow> if c = CHR ''#'' then [c] else [])"
  define s1 where "s1 = drop (length h) s"
  define n where "n = takeWhile is_nick s1"
  define s2 where "s2 = dropWhile is_nick s1"
  define b where "b = (case s2 of [] \<Rightarrow> [] | c # _ \<Rightarrow> if c = CHR ''!'' then [c] else [])"
  have tok: "n \<noteq> []" "tok = h @ n @ b"
    using assms unfolding reviewer_def Let_def h_def [symmetric] s1_def [symmetric]
      n_def [symmetric] s2_def [symmetric] b_def [symmetric]
    by (auto split: if_splits)
  have hs: "s = h @ s1" "h = [] \<or> h = ''#''"
    by (auto simp: h_def s1_def split: list.splits)
  have ns: "s1 = n @ s2" by (simp add: n_def s2_def)
  have bs: "s2 = b @ drop (length b) s2" "b = [] \<or> b = ''!''"
    by (auto simp: b_def split: list.splits)
  have nick: "\<forall>c \<in> set n. is_nick c"
    unfolding n_def by (auto dest: set_takeWhileD)
  have s2hd: "s2 \<noteq> [] \<Longrightarrow> \<not> is_nick (hd s2)"
    unfolding s2_def by (metis hd_dropWhile)
  have last: "drop (length b) s2 \<noteq> [] \<longrightarrow> \<not> is_nick (hd (drop (length b) s2)) \<or> b = ''!''"
    using s2hd bs(2) by auto
  have "s = tok @ drop (length b) s2"
    using hs(1) ns bs(1) tok(2) by simp
  then show ?thesis
    using tok hs(2) bs(2) nick last by blast
qed

lemma reviewer_props:
  assumes "reviewer s = Some tok"
  shows "tok \<noteq> []" and "\<exists>rest. s = tok @ rest"
    and "\<forall>c \<in> set tok. is_nick c \<or> c = CHR ''#'' \<or> c = CHR ''!''"
    and "is_nick (last tok) \<or> last tok = CHR ''!''"
proof -
  obtain h n b rest where *: "tok = h @ n @ b" "s = tok @ rest" "h = [] \<or> h = ''#''" "n \<noteq> []"
      "\<forall>c \<in> set n. is_nick c" "b = [] \<or> b = ''!''"
    using reviewer_SomeD [OF assms] by blast
  show "tok \<noteq> []" using * by simp
  show "\<exists>rest. s = tok @ rest" using * by blast
  show "\<forall>c \<in> set tok. is_nick c \<or> c = CHR ''#'' \<or> c = CHR ''!''"
    using * by auto
  show "is_nick (last tok) \<or> last tok = CHR ''!''"
    using * by (auto simp: last_append)
qed

lemma additional_reviewers_props:
  "(\<exists>rest. s = additional_reviewers s @ rest) \<and>
   (\<forall>c \<in> set (additional_reviewers s). is_nick c \<or> c = CHR ''#'' \<or> c = CHR ''!'' \<or> is_list c \<or> is_space c) \<and>
   (additional_reviewers s \<noteq> [] \<longrightarrow>
      is_nick (last (additional_reviewers s)) \<or> last (additional_reviewers s) = CHR ''!'')"
proof (induction s rule: additional_reviewers.induct)
  case 1
  then show ?case by simp
next
  case (2 c t)
  show ?case
  proof (cases "is_list c \<and> \<not> next_flag (dropWhile is_space t) \<and> reviewer (dropWhile is_space t) \<noteq> None")
    case False
    then show ?thesis by (auto split: option.splits)
  next
    case True
    then obtain tok where tok: "reviewer (dropWhile is_space t) = Some tok" by auto
    define more where "more = additional_reviewers (drop (length tok) (dropWhile is_space t))"
    define ws where "ws = takeWhile is_space t"
    have IH: "(\<exists>rest. drop (length tok) (dropWhile is_space t) = more @ rest) \<and>
      (\<forall>c \<in> set more. is_nick c \<or> c = CHR ''#'' \<or> c = CHR ''!'' \<or> is_list c \<or> is_space c) \<and>
      (more \<noteq> [] \<longrightarrow> is_nick (last more) \<or> last more = CHR ''!'')"
    proof -
      have l: "\<not> \<not> is_list c" and nf: "\<not> next_flag (dropWhile is_space t)"
        using True by simp_all
      show ?thesis unfolding more_def by (rule "2.IH" [OF l nf tok])
    qed
    have eq: "additional_reviewers (c # t) = c # ws @ tok @ more"
      using True tok by (simp add: more_def ws_def)
    obtain r1 where r1: "dropWhile is_space t = tok @ r1"
      using reviewer_props(2) [OF tok] by blast
    then have "drop (length tok) (dropWhile is_space t) = r1" by simp
    then obtain rest where rest: "r1 = more @ rest" using IH by auto
    have "t = ws @ dropWhile is_space t" by (simp add: ws_def)
    then have "t = ws @ tok @ more @ rest"
      by (simp only: r1 rest)
    then have "c # t = (c # ws @ tok @ more) @ rest"
      by simp
    then have p1: "\<exists>rest. c # t = additional_reviewers (c # t) @ rest"
      unfolding eq by blast
    have wsp: "\<forall>x \<in> set ws. is_space x"
      unfolding ws_def by (auto dest: set_takeWhileD)
    have p2: "\<forall>x \<in> set (additional_reviewers (c # t)).
                 is_nick x \<or> x = CHR ''#'' \<or> x = CHR ''!'' \<or> is_list x \<or> is_space x"
      unfolding eq using True IH reviewer_props(3) [OF tok] wsp by auto
    have p3: "is_nick (last (additional_reviewers (c # t))) \<or>
              last (additional_reviewers (c # t)) = CHR ''!''"
      unfolding eq using IH reviewer_props(1,4) [OF tok] by (auto simp: last_append)
    show ?thesis using p1 p2 p3 by blast
  qed
qed

lemma reviewers_group_props:
  "(\<exists>rest. s = reviewers_group s @ rest) \<and>
   (\<forall>c \<in> set (reviewers_group s). is_nick c \<or> c = CHR ''#'' \<or> c = CHR ''!'' \<or> is_list c \<or> is_space c) \<and>
   (reviewers_group s \<noteq> [] \<longrightarrow>
      is_nick (last (reviewers_group s)) \<or> last (reviewers_group s) = CHR ''!'')"
proof (cases "reviewer s")
  case None
  then show ?thesis by (simp add: reviewers_group_def)
next
  case (Some tok)
  define more where "more = additional_reviewers (drop (length tok) s)"
  have eq: "reviewers_group s = tok @ more"
    using Some by (simp add: reviewers_group_def more_def)
  obtain r1 where r1: "s = tok @ r1" using reviewer_props(2) [OF Some] by blast
  then have d: "drop (length tok) s = r1" by simp
  have more: "(\<exists>rest. r1 = more @ rest) \<and>
      (\<forall>c \<in> set more. is_nick c \<or> c = CHR ''#'' \<or> c = CHR ''!'' \<or> is_list c \<or> is_space c) \<and>
      (more \<noteq> [] \<longrightarrow> is_nick (last more) \<or> last more = CHR ''!'')"
    using additional_reviewers_props [of r1] unfolding more_def d by simp
  then obtain rest where "r1 = more @ rest" by blast
  then have "s = (tok @ more) @ rest" using r1 by simp
  then have p1: "\<exists>rest. s = reviewers_group s @ rest"
    unfolding eq by blast
  have p2: "\<forall>c \<in> set (reviewers_group s). is_nick c \<or> c = CHR ''#'' \<or> c = CHR ''!'' \<or> is_list c \<or> is_space c"
    unfolding eq using reviewer_props(3) [OF Some] more by auto
  have p3: "is_nick (last (reviewers_group s)) \<or> last (reviewers_group s) = CHR ''!''"
    unfolding eq using reviewer_props(1,4) [OF Some] more by (auto simp: last_append)
  show ?thesis using p1 p2 p3 by blast
qed

text \<open>What a match of \<open>REVIEWERS_RE\<close> looks like.\<close>

lemma REVIEWERS_RE_match_SomeD:
  assumes "REVIEWERS_RE_match s = Some (g1, g2, g3)"
  shows "\<exists>c cs a d rest. s = c # cs \<and> g1 = [c] \<and> is_before c \<and>
           a \<in> {''r'', ''a'', ''sr'', ''rs'', ''ui-r''} \<and> is_eq_or_q d \<and> g2 = a @ [d] \<and>
           cs = g2 @ g3 @ rest \<and> drop (length g2 + length g3) cs = rest \<and>
           g3 = reviewers_group (g3 @ rest)"
proof -
  obtain c cs where s: "s = c # cs" using assms by (cases s) (auto simp: REVIEWERS_RE_match_def)
  have b: "is_before c" and g1: "g1 = [c]"
    using assms s by (auto simp: REVIEWERS_RE_match_def split: if_splits option.splits)
  have sp: "SPECIFIER cs = Some g2" and g3: "g3 = reviewers_group (drop (length g2) cs)"
    using assms s by (auto simp: REVIEWERS_RE_match_def split: if_splits option.splits)
  obtain a d r1 where a: "a \<in> {''r'', ''a'', ''sr'', ''rs'', ''ui-r''}" "is_eq_or_q d" "g2 = a @ [d]"
      "cs = g2 @ r1"
    using SPECIFIER_SomeD [OF sp] by blast
  have "drop (length g2) cs = r1" using a(4) by simp
  then obtain rest where rest: "r1 = g3 @ rest" and g3': "g3 = reviewers_group r1"
    using g3 reviewers_group_props [of r1] by auto
  have "drop (length g2 + length g3) cs = rest"
    using a(4) rest by simp
  then show ?thesis
    using s g1 b a rest g3' by blast
qed

section \<open>Summary lines without a bare specifier\<close>

lemma splitlines_from_line:
  "\<forall>c \<in> set s. \<not> is_linebreak c \<Longrightarrow> cur @ s \<noteq> [] \<Longrightarrow> splitlines_from cur s = [cur @ s]"
  by (induction s arbitrary: cur) auto

lemma splitlines_line:
  "\<forall>c \<in> set s. \<not> is_linebreak c \<Longrightarrow> s \<noteq> [] \<Longrightarrow> splitlines s = [s]"
  using splitlines_from_line [of s "[]"] by (simp add: splitlines_def)

lemma replace_reviewers_line:
  assumes "\<forall>c \<in> set line. \<not> is_linebreak c" and "line \<noteq> []"
  shows "replace_reviewers line reviewers =
           Inr (strip (rewrite_summary (reviewers_str_of reviewers) line))"
  using assms by (simp add: replace_reviewers_def splitlines_line pop0_def Let_def)


text \<open>
  C7, as amended. For every non-empty summary line with no occurrence of \<open>r=\<close> or \<open>r?\<close>
  after a word boundary, and every non-empty reviewer set, \<open>replace_reviewers\<close> returns the
  line, one space and \<open>r=\<close> with the reviewers joined by commas, with the whitespace at both
  ends trimmed; when the line does not begin with whitespace and the annotation does not end
  with whitespace this is the line followed by exactly one space and the annotation, nothing
  else changed.
\<close>

theorem append_annotation:
  assumes "\<forall>c \<in> set line. \<not> is_linebreak c" and "line \<noteq> []"
    and "\<not> R_SPECIFIER_RE_search line" and "reviewers \<noteq> []"
  shows "replace_reviewers line reviewers =
           Inr (strip (line @ '' '' @ ''r='' @ join '','' reviewers)) \<and>
         (\<not> is_space (hd line) \<and> \<not> is_space (last (''r='' @ join '','' reviewers)) \<longrightarrow>
          replace_reviewers line reviewers = Inr (line @ '' '' @ ''r='' @ join '','' reviewers))"
proof -
  have eq: "replace_reviewers line reviewers =
           Inr (strip (line @ '' '' @ ''r='' @ join '','' reviewers))"
    using assms by (simp add: replace_reviewers_line rewrite_summary_def reviewers_str_of_def)
  have "strip (line @ '' '' @ ''r='' @ join '','' reviewers) =
          line @ '' '' @ ''r='' @ join '','' reviewers"
    if "\<not> is_space (hd line)" "\<not> is_space (last (''r='' @ join '','' reviewers))"
    using that assms(2) by (intro strip_id) auto
  with eq show ?thesis by simp
qed

theorem append_annotation_witness:
  "filter is_linebreak ''Fix bug'' = [] \<and> ''Fix bug'' \<noteq> [] \<and>
   \<not> R_SPECIFIER_RE_search ''Fix bug'' \<and> [''alice'', ''bob''] \<noteq> [] \<and>
   \<not> is_space (hd ''Fix bug'') \<and> \<not> is_space (last (''r='' @ join '','' [''alice'', ''bob''])) \<and>
   replace_reviewers ''Fix bug'' [''alice'', ''bob''] = Inr ''Fix bug r=alice,bob''"
proof -
  have h0: "filter is_linebreak ''Fix bug'' = []" by code_simp
  then have h1: "\<forall>c \<in> set ''Fix bug''. \<not> is_linebreak c" by (simp only: filter_empty_conv)
  have h2: "''Fix bug'' \<noteq> []" by simp
  have h3: "\<not> R_SPECIFIER_RE_search ''Fix bug''" by code_simp
  have h4: "[''alice'', ''bob''] \<noteq> []" by simp
  have h5: "\<not> is_space (hd ''Fix bug'')" by code_simp
  have h6: "\<not> is_space (last (''r='' @ join '','' [''alice'', ''bob'']))" by code_simp
  have j: "''Fix bug'' @ '' '' @ ''r='' @ join '','' [''alice'', ''bob''] = ''Fix bug r=alice,bob''"
    by simp
  from append_annotation [OF h1 h2 h3 h4] h5 h6
  have "replace_reviewers ''Fix bug'' [''alice'', ''bob''] =
          Inr (''Fix bug'' @ '' '' @ ''r='' @ join '','' [''alice'', ''bob''])"
    by blast
  then have "replace_reviewers ''Fix bug'' [''alice'', ''bob''] = Inr ''Fix bug r=alice,bob''"
    by (simp only: j)
  with h0 h2 h3 h4 h5 h6 show ?thesis by blast
qed

text \<open>
  C7 as stated fails on a line that begins with a space: the space is trimmed, so the result
  is not the line followed by the annotation.
\<close>

theorem append_annotation_trims_line:
  "\<not> R_SPECIFIER_RE_search '' Fix bug'' \<and>
   replace_reviewers '' Fix bug'' [''alice''] = Inr ''Fix bug r=alice'' \<and>
   ''Fix bug r=alice'' \<noteq> '' Fix bug'' @ '' '' @ ''r='' @ join '','' [''alice'']"
  by code_simp

section \<open>Summary lines whose annotations are not bare\<close>

lemma sub_reviewers_no_bare:
  "\<forall>m \<in> set (finditer_reviewers s). \<not> R_SPECIFIER_RE_match (fst (snd m)) \<Longrightarrow>
   sub_reviewers first reviewers_str s = s"
proof (induction s rule: finditer_reviewers.induct)
  case 1
  then show ?case by simp
next
  case (2 c cs)
  show ?case
  proof (cases "REVIEWERS_RE_match (c # cs)")
    case None
    then show ?thesis using 2 by simp
  next
    case (Some m)
    obtain g1 g2 g3 where m: "m = (g1, g2, g3)" by (cases m) auto
    obtain rest where parts: "g1 = [c]" "cs = g2 @ g3 @ rest" "drop (length g2 + length g3) cs = rest"
      using REVIEWERS_RE_match_SomeD [OF Some [unfolded m]] by auto
    have nb: "\<not> R_SPECIFIER_RE_match g2"
      using "2.prems" Some m by simp
    have "sub_reviewers first reviewers_str (drop (length g2 + length g3) cs) =
            drop (length g2 + length g3) cs"
      using "2.IH"(2) [OF Some m [symmetric] refl] "2.prems" Some m by simp
    then have "sub_reviewers first reviewers_str (c # cs) = (g1 @ g2 @ g3) @ rest"
      using Some m nb parts(3) by (simp add: replace_first_reviewer_def)
    then show ?thesis using parts(1,2) by simp
  qed
qed

lemma dropWhile_Cons_in: "dropWhile P xs = d # ds \<Longrightarrow> d \<in> set xs"
  by (metis list.set_intros(1) set_dropWhileD)

lemma sub_list_marker_no_NUL: "NUL \<notin> set s \<Longrightarrow> sub_list_marker s = s"
proof (induction s rule: sub_list_marker.induct)
  case 1
  then show ?case by simp
next
  case (2 c cs)
  have "\<not> (case dropWhile is_space cs of [] \<Rightarrow> False | d # _ \<Rightarrow> d = NUL)"
    using "2.prems" by (auto split: list.splits dest: dropWhile_Cons_in)
  then show ?case using 2 by simp
qed

lemma sub_marker_no_NUL: "NUL \<notin> set s \<Longrightarrow> sub_marker s = s"
  by (auto simp: sub_marker_def filter_id_conv)

lemma specifiers_of_member:
  "m \<in> set (finditer_reviewers s) \<Longrightarrow> fst (snd m) \<in> set (specifiers_of s)"
  unfolding specifiers_of_def by (auto simp: case_prod_beta intro!: image_eqI)

lemma R_SPECIFIER_search_from_True: "R_SPECIFIER_search_from True s \<Longrightarrow> R_SPECIFIER_search_from pw s"
  by (cases s) (auto simp: R_SPECIFIER_at_def)

lemma R_SPECIFIER_search_from_append:
  "R_SPECIFIER_search_from True t \<Longrightarrow> R_SPECIFIER_search_from pw (s @ t)"
  by (induction s arbitrary: pw) (auto intro: R_SPECIFIER_search_from_True)

lemma finditer_ui_r_search:
  "(g1, g2, g3) \<in> set (finditer_reviewers s) \<Longrightarrow> g2 = ''ui-r='' \<or> g2 = ''ui-r?'' \<Longrightarrow>
   R_SPECIFIER_search_from pw s"
proof (induction s arbitrary: pw rule: finditer_reviewers.induct)
  case 1
  then show ?case by simp
next
  case (2 c cs)
  show ?case
  proof (cases "REVIEWERS_RE_match (c # cs)")
    case None
    then show ?thesis using 2 by simp
  next
    case (Some m)
    obtain h1 h2 h3 where m: "m = (h1, h2, h3)" by (cases m) auto
    obtain rest where parts: "h1 = [c]" "cs = h2 @ h3 @ rest" "drop (length h2 + length h3) cs = rest"
      using REVIEWERS_RE_match_SomeD [OF Some [unfolded m]] by auto
    from "2.prems"(1) Some m
    consider "(g1, g2, g3) = (h1, h2, h3)" | "(g1, g2, g3) \<in> set (finditer_reviewers rest)"
      using parts(3) by auto
    then show ?thesis
    proof cases
      case 1
      then have "cs = g2 @ h3 @ rest" using parts(2) by simp
      then have "R_SPECIFIER_search_from (is_word c) cs"
        using "2.prems"(2)
        by (auto simp: R_SPECIFIER_at_def is_word_def is_ascii_alnum_def is_eq_or_q_def)
      then show ?thesis by simp
    next
      case 2
      have "R_SPECIFIER_search_from True rest"
        using "2.IH"(2) [OF Some m [symmetric] refl] 2 "2.prems"(2) parts(3) by simp
      then have "R_SPECIFIER_search_from (is_word c) ((h2 @ h3) @ rest)"
        by (rule R_SPECIFIER_search_from_append)
      then show ?thesis using parts(2) by simp
    qed
  qed
qed


text \<open>
  C10, as amended. For every summary line without NUL whose reviewer annotations all use
  the specifier \<open>ui-r=\<close> or \<open>ui-r?\<close> (and there is one), and every reviewer set,
  \<open>replace_reviewers\<close> returns the line with the whitespace at both ends trimmed and nothing
  else changed; the reviewer set is not inserted. The search for \<open>\br[=?]\<close> finds the \<open>r=\<close>
  inside \<open>ui-r=\<close>, so nothing is appended, and the callback returns every match as it is.
\<close>

theorem ui_r_line_only_stripped:
  assumes "\<forall>c \<in> set line. \<not> is_linebreak c" and "NUL \<notin> set line"
    and "specifiers_of line \<noteq> []"
    and "set (specifiers_of line) \<subseteq> {''ui-r='', ''ui-r?''}"
  shows "replace_reviewers line reviewers = Inr (strip line)"
proof -
  have ne: "line \<noteq> []" using assms(3) by (auto simp: specifiers_of_def)
  obtain g1 g2 g3 where m: "(g1, g2, g3) \<in> set (finditer_reviewers line)"
    using assms(3) by (cases "finditer_reviewers line") (auto simp: specifiers_of_def)
  then have "g2 \<in> set (specifiers_of line)"
    using specifiers_of_member by fastforce
  then have g2: "g2 = ''ui-r='' \<or> g2 = ''ui-r?''" using assms(4) by auto
  have search: "R_SPECIFIER_RE_search line"
    unfolding R_SPECIFIER_RE_search_def using m g2 by (rule finditer_ui_r_search)
  have "\<forall>m \<in> set (finditer_reviewers line). \<not> R_SPECIFIER_RE_match (fst (snd m))"
  proof
    fix m assume "m \<in> set (finditer_reviewers line)"
    then have "fst (snd m) \<in> set (specifiers_of line)"
      by (rule specifiers_of_member)
    then have "fst (snd m) = ''ui-r='' \<or> fst (snd m) = ''ui-r?''" using assms(4) by auto
    then show "\<not> R_SPECIFIER_RE_match (fst (snd m))"
      by (auto simp: R_SPECIFIER_RE_match_def R_SPECIFIER_at_def)
  qed
  then have "sub_reviewers True (reviewers_str_of reviewers) line = line"
    by (rule sub_reviewers_no_bare)
  then have "rewrite_summary (reviewers_str_of reviewers) line = line"
    using search assms(2) by (simp add: rewrite_summary_def sub_list_marker_no_NUL sub_marker_no_NUL)
  then show ?thesis
    using assms(1) ne by (simp add: replace_reviewers_line)
qed

theorem ui_r_line_only_stripped_witness:
  "filter is_linebreak ''Fix widget ui-r=foo'' = [] \<and> NUL \<notin> set ''Fix widget ui-r=foo'' \<and>
   specifiers_of ''Fix widget ui-r=foo'' \<noteq> [] \<and>
   set (specifiers_of ''Fix widget ui-r=foo'') \<subseteq> {''ui-r='', ''ui-r?''} \<and>
   replace_reviewers ''Fix widget ui-r=foo'' [''alice''] = Inr (strip ''Fix widget ui-r=foo'')"
proof -
  have h0: "filter is_linebreak ''Fix widget ui-r=foo'' = []" by code_simp
  then have h1: "\<forall>c \<in> set ''Fix widget ui-r=foo''. \<not> is_linebreak c"
    by (simp only: filter_empty_conv)
  have h2: "NUL \<notin> set ''Fix widget ui-r=foo''" by code_simp
  have h3: "specifiers_of ''Fix widget ui-r=foo'' \<noteq> []" by code_simp
  have h4: "set (specifiers_of ''Fix widget ui-r=foo'') \<subseteq> {''ui-r='', ''ui-r?''}" by code_simp
  from ui_r_line_only_stripped [OF h1 h2 h3 h4, of "[''alice'']"] h0 h2 h3 h4
  show ?thesis by blast
qed

text \<open>
  C10 as stated fails on a line that begins with a space: the line that comes back is not the
  line that went in.
\<close>

theorem ui_r_line_is_trimmed:
  "specifiers_of '' Fix widget ui-r=foo'' = [''ui-r=''] \<and>
   replace_reviewers '' Fix widget ui-r=foo'' [''alice''] = Inr ''Fix widget ui-r=foo'' \<and>
   ''Fix widget ui-r=foo'' \<noteq> '' Fix widget ui-r=foo''"
  by code_simp

section \<open>Annotations with another specifier\<close>










section \<open>Bare annotations\<close>

subsection \<open>Where they are\<close>

lemma prefix_before:
  assumes "p @ r = v @ t" and "t \<noteq> []" and "hd t \<notin> set p"
  shows "\<exists>v'. v = p @ v'"
proof -
  from assms(1) obtain us where "(p = v @ us \<and> us @ r = t) \<or> (p @ us = v \<and> r = us @ t)"
    by (auto simp: append_eq_append_conv2)
  then show ?thesis
  proof
    assume a: "p = v @ us \<and> us @ r = t"
    show ?thesis
    proof (cases us)
      case Nil
      then show ?thesis using a by simp
    next
      case (Cons x xs)
      then have "hd t = x" using a by auto
      then have "hd t \<in> set p" using a Cons by simp
      then show ?thesis using assms(3) by simp
    qed
  next
    assume "p @ us = v \<and> r = us @ t"
    then show ?thesis by auto
  qed
qed

lemma join_Cons: "join sep (x # xs) = x @ (if xs = [] then [] else sep @ join sep xs)"
  by (cases xs) auto

lemma join_chars:
  "\<forall>r \<in> set rs. \<forall>c \<in> set r. is_nick c \<Longrightarrow> \<forall>c \<in> set (join '','' rs). is_nick c \<or> c = CHR '',''"
  by (induction rs) (auto simp: join_Cons)

lemma join_nonempty:
  "rs \<noteq> [] \<Longrightarrow> \<forall>r \<in> set rs. r \<noteq> [] \<Longrightarrow> join '','' rs \<noteq> []"
  by (cases rs) (auto simp: join_Cons)

lemma join_last_nick:
  "rs \<noteq> [] \<Longrightarrow> \<forall>r \<in> set rs. r \<noteq> [] \<and> (\<forall>c \<in> set r. is_nick c) \<Longrightarrow> is_nick (last (join '','' rs))"
proof (induction rs)
  case Nil
  then show ?case by simp
next
  case (Cons r rs)
  show ?case
  proof (cases "rs = []")
    case True
    then show ?thesis using Cons.prems by simp
  next
    case False
    then have "join '','' rs \<noteq> []" using Cons.prems by (intro join_nonempty) auto
    then show ?thesis using Cons False by (simp add: join_Cons)
  qed
qed

lemma bare_at_iff:
  "bare_at s \<longleftrightarrow> (\<exists>c e t. s = c # CHR ''r'' # e # t \<and> is_before c \<and> is_eq_or_q e)"
proof
  assume "bare_at s"
  then obtain g1 g2 g3 where m: "REVIEWERS_RE_match s = Some (g1, g2, g3)"
      and b: "R_SPECIFIER_RE_match g2"
    by (auto simp: bare_at_def split: option.splits)
  obtain c cs a d rest where p: "s = c # cs" "is_before c"
      "a \<in> {''r'', ''a'', ''sr'', ''rs'', ''ui-r''}" "is_eq_or_q d" "g2 = a @ [d]"
      "cs = g2 @ g3 @ rest"
    using REVIEWERS_RE_match_SomeD [OF m] by blast
  have "a = ''r''"
    using b p(3,5) by (auto simp: R_SPECIFIER_RE_match_def R_SPECIFIER_at_def is_eq_or_q_def)
  then have "s = c # CHR ''r'' # d # g3 @ rest" using p(1,5,6) by simp
  then show "\<exists>c e t. s = c # CHR ''r'' # e # t \<and> is_before c \<and> is_eq_or_q e"
    using p(2,4) by blast
next
  assume "\<exists>c e t. s = c # CHR ''r'' # e # t \<and> is_before c \<and> is_eq_or_q e"
  then obtain c e t where s: "s = c # CHR ''r'' # e # t" "is_before c" "is_eq_or_q e" by blast
  have "SPECIFIER (CHR ''r'' # e # t) = Some [CHR ''r'', e]"
    using s(3) by (simp add: SPECIFIER_def)
  then show "bare_at s"
    using s by (simp add: bare_at_def REVIEWERS_RE_match_def R_SPECIFIER_RE_match_def
        R_SPECIFIER_at_def)
qed

lemma bare_from_suffix: "bare_from t \<Longrightarrow> bare_from (s @ t)"
  by (induction s) auto

lemma bare_at_prefix: "bare_at s \<Longrightarrow> bare_at (s @ t)"
  unfolding bare_at_iff by auto

lemma bare_from_prefix: "bare_from s \<Longrightarrow> bare_from (s @ t)"
proof (induction s)
  case Nil
  then show ?case by simp
next
  case (Cons c s)
  then show ?case using bare_at_prefix [of "c # s" t] by auto
qed

lemma bare_from_appendD:
  "bare_from (x @ y) \<Longrightarrow>
   bare_from x \<or> bare_from y \<or>
   (x \<noteq> [] \<and> is_before (last x) \<and> (\<exists>e t. y = CHR ''r'' # e # t \<and> is_eq_or_q e)) \<or>
   (\<exists>x' c. x = x' @ [c, CHR ''r''] \<and> is_before c \<and> y \<noteq> [] \<and> is_eq_or_q (hd y))"
proof (induction x)
  case Nil
  then show ?case by simp
next
  case (Cons c x)
  from Cons.prems have "bare_at (c # x @ y) \<or> bare_from (x @ y)" by simp
  then show ?case
  proof
    assume "bare_at (c # x @ y)"
    then obtain e t where xy: "x @ y = CHR ''r'' # e # t" and c: "is_before c" and e: "is_eq_or_q e"
      unfolding bare_at_iff by auto
    show ?thesis
    proof (cases x)
      case Nil
      then show ?thesis using xy c e by auto
    next
      case x1: (Cons x1 xs)
      show ?thesis
      proof (cases xs)
        case Nil
        then have "c # x = [] @ [c, CHR ''r'']" "y \<noteq> []" "hd y = e"
          using xy x1 by auto
        then show ?thesis using c e by blast
      next
        case (Cons x2 xs')
        then have "c # x = c # CHR ''r'' # e # xs'" using xy x1 by auto
        then have "bare_at (c # x)" unfolding bare_at_iff using c e by blast
        then show ?thesis by simp
      qed
    qed
  next
    assume "bare_from (x @ y)"
    from Cons.IH [OF this] show ?thesis
    proof (elim disjE)
      assume "bare_from x"
      then show ?thesis by simp
    next
      assume "bare_from y"
      then show ?thesis by simp
    next
      assume "x \<noteq> [] \<and> is_before (last x) \<and> (\<exists>e t. y = CHR ''r'' # e # t \<and> is_eq_or_q e)"
      then show ?thesis by auto
    next
      assume "\<exists>x' c. x = x' @ [c, CHR ''r''] \<and> is_before c \<and> y \<noteq> [] \<and> is_eq_or_q (hd y)"
      then obtain x' c' where "x = x' @ [c', CHR ''r'']" "is_before c'" "y \<noteq> []" "is_eq_or_q (hd y)"
        by blast
      then have "c # x = (c # x') @ [c', CHR ''r'']" by simp
      then show ?thesis using \<open>is_before c'\<close> \<open>y \<noteq> []\<close> \<open>is_eq_or_q (hd y)\<close> by blast
    qed
  qed
qed

lemma bare_from_search: "bare_from s \<Longrightarrow> R_SPECIFIER_search_from pw s"
proof (induction s arbitrary: pw)
  case Nil
  then show ?case by simp
next
  case (Cons c s)
  from Cons.prems have "bare_at (c # s) \<or> bare_from s" by simp
  then show ?case
  proof
    assume "bare_at (c # s)"
    then obtain e t where "s = CHR ''r'' # e # t" "is_before c" "is_eq_or_q e"
      unfolding bare_at_iff by auto
    then show ?thesis using is_before_not_word [of c] by (simp add: R_SPECIFIER_at_def)
  next
    assume "bare_from s"
    then show ?thesis using Cons.IH by simp
  qed
qed

lemma finditer_bare:
  "m \<in> set (finditer_reviewers s) \<Longrightarrow> R_SPECIFIER_RE_match (fst (snd m)) \<Longrightarrow> bare_from s"
proof (induction s rule: finditer_reviewers.induct)
  case 1
  then show ?case by simp
next
  case (2 c cs)
  show ?case
  proof (cases "REVIEWERS_RE_match (c # cs)")
    case None
    then show ?thesis using 2 by simp
  next
    case (Some m')
    obtain h1 h2 h3 where m': "m' = (h1, h2, h3)" by (cases m') auto
    from "2.prems"(1) Some m'
    consider "m = m'" | "m \<in> set (finditer_reviewers (drop (length h2 + length h3) cs))"
      by auto
    then show ?thesis
    proof cases
      case 1
      then have "bare_at (c # cs)" using Some m' "2.prems"(2) by (simp add: bare_at_def)
      then show ?thesis by simp
    next
      case 2
      then have "bare_from (drop (length h2 + length h3) cs)"
        using "2.IH"(2) [OF Some m' [symmetric] refl] "2.prems"(2) by simp
      then have "bare_from (take (length h2 + length h3) cs @ drop (length h2 + length h3) cs)"
        by (rule bare_from_suffix)
      then show ?thesis by simp
    qed
  qed
qed

lemma sub_reviewers_bare_free: "\<not> bare_from s \<Longrightarrow> sub_reviewers first rstr s = s"
  using finditer_bare [of _ s] by (intro sub_reviewers_no_bare) blast


lemma is_before_props:
  "is_before d \<Longrightarrow> \<not> is_nick d \<and> d \<noteq> CHR ''#'' \<and> d \<noteq> CHR ''!'' \<and> \<not> is_eq_or_q d \<and>
     d \<notin> set ''rasui-'' "
  by (auto simp: is_before_def is_nick_def is_ascii_alnum_def is_space_def is_eq_or_q_def)

text \<open>Where a reviewer list stops before a bare annotation.\<close>

lemma next_flag_bare: "is_eq_or_q e \<Longrightarrow> next_flag (CHR ''r'' # e # w)"
proof -
  assume e: "is_eq_or_q e"
  have r: "is_flagch CHR ''r''" by (simp add: is_flagch_def)
  have "\<not> is_flagch e" using e by (auto simp: is_eq_or_q_def is_flagch_def)
  then show ?thesis using r e by (simp add: next_flag_def)
qed

lemma not_space_r: "\<not> is_space CHR ''r''"
  by (simp add: is_space_def)

lemma tail_stops:
  assumes "is_before d" and "is_eq_or_q e"
  shows "next_flag (dropWhile is_space (d # CHR ''r'' # e # w)) \<or>
         reviewer (dropWhile is_space (d # CHR ''r'' # e # w)) = None"
proof (cases "is_space d")
  case True
  then show ?thesis using next_flag_bare [OF assms(2)] not_space_r by simp
next
  case False
  have "reviewer (d # CHR ''r'' # e # w) = None"
    using is_before_props [OF assms(1)] by (simp add: reviewer_def)
  then show ?thesis using False by simp
qed

lemma additional_reviewers_before_bare:
  assumes "is_before d" and "is_eq_or_q e"
  shows "\<exists>v'. v = additional_reviewers (v @ d # CHR ''r'' # e # w) @ v'"
proof (induction v rule: length_induct)
  case (1 v)
  define tail where "tail = d # CHR ''r'' # e # w"
  have tail_hd: "tail \<noteq> []" "hd tail = d" by (simp_all add: tail_def)
  have stops: "next_flag (dropWhile is_space tail) \<or> reviewer (dropWhile is_space tail) = None"
    unfolding tail_def using assms by (rule tail_stops)
  show ?case
  proof (cases v)
    case Nil
    have "additional_reviewers tail = []"
      using next_flag_bare [OF assms(2)] not_space_r by (simp add: tail_def)
    then show ?thesis using Nil by (simp add: tail_def)
  next
    case (Cons c t0)
    consider "\<not> is_list c" | "is_list c" "\<forall>x \<in> set t0. is_space x"
      | "is_list c" "\<exists>x \<in> set t0. \<not> is_space x" by blast
    then show ?thesis
    proof cases
      case 1
      then show ?thesis using Cons by simp
    next
      case 2
      then have dw: "dropWhile is_space (t0 @ tail) = dropWhile is_space tail"
        by (simp add: dropWhile_append)
      have "additional_reviewers (c # t0 @ tail) = []"
        using 2(1) stops unfolding dw [symmetric] by auto
      then show ?thesis using Cons by (simp add: tail_def)
    next
      case 3
      then obtain x where x: "x \<in> set t0" "\<not> is_space x" by blast
      define w0 where "w0 = dropWhile is_space t0"
      define ws where "ws = takeWhile is_space t0"
      have t0: "t0 = ws @ w0" by (simp add: ws_def w0_def)
      have dw: "dropWhile is_space (t0 @ tail) = w0 @ tail"
        unfolding w0_def using x by (metis dropWhile_append1)
      have tw: "takeWhile is_space (t0 @ tail) = ws"
        unfolding ws_def using x by (metis takeWhile_append1)
      show ?thesis
      proof (cases "next_flag (w0 @ tail)")
        case True
        then have "additional_reviewers (c # t0 @ tail) = []" using 3(1) dw by simp
        then show ?thesis using Cons by (simp add: tail_def)
      next
        case False
        show ?thesis
        proof (cases "reviewer (w0 @ tail)")
          case None
          then have "additional_reviewers (c # t0 @ tail) = []" using 3(1) dw False by simp
          then show ?thesis using Cons by (simp add: tail_def)
        next
          case (Some tok)
          obtain r1 where r1: "w0 @ tail = tok @ r1"
            using reviewer_props(2) [OF Some] by blast
          have "d \<notin> set tok"
            using reviewer_props(3) [OF Some] is_before_props [OF assms(1)] by auto
          then obtain w1 where w1: "w0 = tok @ w1"
            using prefix_before [of tok r1 w0 tail] r1 tail_hd by auto
          then have dr: "drop (length tok) (w0 @ tail) = w1 @ tail" by simp
          define more where "more = additional_reviewers (w1 @ tail)"
          have eq: "additional_reviewers (c # t0 @ tail) = c # ws @ tok @ more"
            using 3(1) dw tw False Some dr by (simp add: more_def)
          have "length w1 < length v"
            using Cons t0 w1 by simp
          then obtain v'' where "w1 = more @ v''"
            using 1 unfolding more_def tail_def by blast
          then have "v = (c # ws @ tok @ more) @ v''"
            using Cons t0 w1 by simp
          then show ?thesis
            using eq Cons unfolding tail_def by (metis append_Cons)
        qed
      qed
    qed
  qed
qed

lemma reviewers_group_before_bare:
  assumes "is_before d" and "is_eq_or_q e"
  shows "\<exists>v'. v = reviewers_group (v @ d # CHR ''r'' # e # w) @ v'"
proof (cases "reviewer (v @ d # CHR ''r'' # e # w)")
  case None
  then show ?thesis by (simp add: reviewers_group_def)
next
  case (Some tok)
  define tail where "tail = d # CHR ''r'' # e # w"
  have tail_hd: "tail \<noteq> []" "hd tail = d" by (simp_all add: tail_def)
  obtain r1 where r1: "v @ tail = tok @ r1"
    using reviewer_props(2) [OF Some] unfolding tail_def by blast
  have "d \<notin> set tok"
    using reviewer_props(3) [OF Some] is_before_props [OF assms(1)] by auto
  then obtain v1 where v1: "v = tok @ v1"
    using prefix_before [of tok r1 v tail] r1 tail_hd by auto
  then have dr: "drop (length tok) (v @ tail) = v1 @ tail" by simp
  define more where "more = additional_reviewers (v1 @ tail)"
  have eq: "reviewers_group (v @ tail) = tok @ more"
    using Some dr unfolding tail_def [symmetric] by (simp add: reviewers_group_def more_def)
  obtain v'' where "v1 = more @ v''"
    using additional_reviewers_before_bare [OF assms, of v1 w] unfolding more_def tail_def by blast
  then have "v = (tok @ more) @ v''" using v1 by simp
  then show ?thesis using eq unfolding tail_def by metis
qed

lemma match_before_bare:
  assumes "REVIEWERS_RE_match (c # u' @ d # CHR ''r'' # e # w) = Some (g1, g2, g3)"
    and "is_before d" and "is_eq_or_q e"
  shows "\<exists>u''. u' = g2 @ g3 @ u'' \<and>
               drop (length g2 + length g3) (u' @ d # CHR ''r'' # e # w) =
                 u'' @ d # CHR ''r'' # e # w"
proof -
  define tail where "tail = d # CHR ''r'' # e # w"
  have tail_hd: "tail \<noteq> []" "hd tail = d" by (simp_all add: tail_def)
  obtain a d' rest where m: "a \<in> {''r'', ''a'', ''sr'', ''rs'', ''ui-r''}" "is_eq_or_q d'"
      "g2 = a @ [d']" "u' @ tail = g2 @ g3 @ rest" "g3 = reviewers_group (g3 @ rest)"
    using REVIEWERS_RE_match_SomeD [OF assms(1)] unfolding tail_def by auto
  have "d \<notin> set g2"
    using m(1,2,3) is_before_props [OF assms(2)] by auto
  then obtain v where v: "u' = g2 @ v"
    using prefix_before [of g2 "g3 @ rest" u' tail] m(4) tail_hd by auto
  then have "v @ tail = g3 @ rest" using m(4) by simp
  then have "g3 = reviewers_group (v @ tail)" using m(5) by simp
  then obtain u'' where u'': "v = g3 @ u''"
    using reviewers_group_before_bare [OF assms(2,3), of v w] unfolding tail_def by auto
  have "u' = g2 @ g3 @ u''" using v u'' by simp
  then show ?thesis unfolding tail_def [symmetric] by auto
qed

lemma bare_from_drop: "\<not> bare_from (s @ t) \<Longrightarrow> \<not> bare_from t"
  using bare_from_suffix by blast

lemma match_at_bare:
  assumes "is_before d" and "is_eq_or_q e"
  shows "REVIEWERS_RE_match (d # CHR ''r'' # e # w) = Some ([d], [CHR ''r'', e], reviewers_group w)"
proof -
  have "SPECIFIER (CHR ''r'' # e # w) = Some [CHR ''r'', e]"
    using assms(2) by (simp add: SPECIFIER_def)
  then show ?thesis using assms(1) by (simp add: REVIEWERS_RE_match_def)
qed

text \<open>The scan up to the first bare annotation.\<close>

lemma sub_reviewers_bare:
  assumes "is_before d" and "is_eq_or_q e"
  shows "\<not> bare_from u \<Longrightarrow>
         sub_reviewers first rstr (u @ d # CHR ''r'' # e # w) =
           u @ (if first then d # rstr else [NUL]) @
           sub_reviewers False rstr (drop (length (reviewers_group w)) w)"
proof (induction u rule: length_induct)
  case (1 u)
  show ?case
  proof (cases u)
    case Nil
    have "R_SPECIFIER_RE_match [CHR ''r'', e]"
      using assms(2) by (simp add: R_SPECIFIER_RE_match_def R_SPECIFIER_at_def)
    then show ?thesis
      using Nil match_at_bare [OF assms, of w]
      by (simp add: replace_first_reviewer_def)
  next
    case (Cons c u')
    have q': "\<not> bare_from u'" using "1.prems" Cons by simp
    show ?thesis
    proof (cases "REVIEWERS_RE_match (c # u' @ d # CHR ''r'' # e # w)")
      case None
      have "sub_reviewers first rstr (u' @ d # CHR ''r'' # e # w) =
              u' @ (if first then d # rstr else [NUL]) @
              sub_reviewers False rstr (drop (length (reviewers_group w)) w)"
        using 1 Cons q' by simp
      then show ?thesis using None Cons by simp
    next
      case (Some m)
      obtain g1 g2 g3 where m: "m = (g1, g2, g3)" by (cases m) auto
      obtain a d' where parts: "g1 = [c]" "is_before c"
          "a \<in> {''r'', ''a'', ''sr'', ''rs'', ''ui-r''}" "is_eq_or_q d'" "g2 = a @ [d']"
        using REVIEWERS_RE_match_SomeD [OF Some [unfolded m]] by auto
      obtain u'' where u'': "u' = g2 @ g3 @ u''"
          "drop (length g2 + length g3) (u' @ d # CHR ''r'' # e # w) = u'' @ d # CHR ''r'' # e # w"
        using match_before_bare [OF Some [unfolded m] assms] by blast
      have nb: "\<not> R_SPECIFIER_RE_match g2"
      proof
        assume "R_SPECIFIER_RE_match g2"
        then have "a = ''r''"
          using parts(3,5)
          by (auto simp: R_SPECIFIER_RE_match_def R_SPECIFIER_at_def is_eq_or_q_def)
        then have "u = c # CHR ''r'' # d' # g3 @ u''"
          using Cons u''(1) parts(5) by simp
        then have "bare_at u" unfolding bare_at_iff using parts(2,4) by blast
        then have "bare_from u" using Cons by simp
        then show False using "1.prems" by simp
      qed
      have q'': "\<not> bare_from u''"
        using q' u''(1) bare_from_drop [of "g2 @ g3" u''] by simp
      have "length u'' < length u" using Cons u''(1) by simp
      then have IH: "sub_reviewers first rstr (u'' @ d # CHR ''r'' # e # w) =
              u'' @ (if first then d # rstr else [NUL]) @
              sub_reviewers False rstr (drop (length (reviewers_group w)) w)"
        using 1 q'' by blast
      have "sub_reviewers first rstr (c # u' @ d # CHR ''r'' # e # w) =
              (g1 @ g2 @ g3) @ sub_reviewers first rstr (u'' @ d # CHR ''r'' # e # w)"
        using Some m nb u''(2) by (simp add: replace_first_reviewer_def)
      then show ?thesis
        using IH Cons parts(1) u''(1) by simp
    qed
  qed
qed


text \<open>Every line with a bare annotation has a first one.\<close>

lemma bare_from_first:
  "bare_from line \<Longrightarrow> \<exists>u s. line = u @ s \<and> bare_at s \<and> \<not> bare_from u"
proof (induction line)
  case Nil
  then show ?case by simp
next
  case (Cons c cs)
  show ?case
  proof (cases "bare_at (c # cs)")
    case True
    then have "c # cs = [] @ (c # cs) \<and> bare_at (c # cs) \<and> \<not> bare_from []" by simp
    then show ?thesis by blast
  next
    case False
    then have "bare_from cs" using Cons.prems by simp
    then obtain u s where us: "cs = u @ s" "bare_at s" "\<not> bare_from u"
      using Cons.IH by blast
    have "\<not> bare_at (c # u)"
      using False bare_at_prefix [of "c # u" s] us(1) by auto
    then have "c # cs = (c # u) @ s \<and> bare_at s \<and> \<not> bare_from (c # u)"
      using us by simp
    then show ?thesis by blast
  qed
qed

lemma bare_from_decompose:
  assumes "bare_from line"
  shows "\<exists>u d e old v. line = u @ d # CHR ''r'' # e # old @ v \<and> is_before d \<and> is_eq_or_q e \<and>
           \<not> bare_from u \<and> reviewers_group (old @ v) = old"
proof -
  obtain u s where us: "line = u @ s" "bare_at s" "\<not> bare_from u"
    using bare_from_first [OF assms] by blast
  obtain d e w where s: "s = d # CHR ''r'' # e # w" "is_before d" "is_eq_or_q e"
    using us(2) unfolding bare_at_iff by blast
  obtain v where v: "w = reviewers_group w @ v"
    using reviewers_group_props [of w] by blast
  have "reviewers_group (reviewers_group w @ v) = reviewers_group w" using v by simp
  moreover have "line = u @ d # CHR ''r'' # e # reviewers_group w @ v"
    using us(1) s(1) v by simp
  ultimately show ?thesis using s(2,3) us(3) by blast
qed

subsection \<open>Trimming\<close>

lemma strip_mid:
  assumes "m \<noteq> []" and "\<not> is_space (hd m)" and "\<not> is_space (last m)"
  shows "strip (a @ m @ b) = dropWhile is_space a @ m @ rev (dropWhile is_space (rev b))"
proof -
  have l: "dropWhile is_space (x @ n @ y) = dropWhile is_space x @ n @ y"
    if "n \<noteq> []" "\<not> is_space (hd n)" for x n y
  proof (cases "\<forall>c \<in> set x. is_space c")
    case True
    then have "dropWhile is_space (x @ n @ y) = dropWhile is_space (n @ y)"
      by (simp add: dropWhile_append)
    also have "\<dots> = n @ y" using that by (cases n) auto
    finally show ?thesis using True by simp
  next
    case False
    then obtain c where "c \<in> set x" "\<not> is_space c" by blast
    then show ?thesis by (metis dropWhile_append1)
  qed
  have 1: "dropWhile is_space (a @ m @ b) = dropWhile is_space a @ m @ b"
    using assms(1,2) by (rule l)
  have "rev m \<noteq> []" "\<not> is_space (hd (rev m))"
    using assms(1,3) by (simp_all add: hd_rev)
  then have 2: "dropWhile is_space (rev b @ rev m @ rev (dropWhile is_space a)) =
                  dropWhile is_space (rev b) @ rev m @ rev (dropWhile is_space a)"
    by (rule l)
  show ?thesis by (simp add: strip_def 1 2)
qed

lemma strip_infix:
  "\<exists>a b. s = a @ strip s @ b \<and> (\<forall>c \<in> set a. is_space c) \<and> (\<forall>c \<in> set b. is_space c)"
proof -
  define t where "t = dropWhile is_space s"
  define a where "a = takeWhile is_space s"
  define r where "r = dropWhile is_space (rev t)"
  define b' where "b' = takeWhile is_space (rev t)"
  have s: "s = a @ t" by (simp add: a_def t_def)
  have "rev t = b' @ r" by (simp add: b'_def r_def)
  then have "t = rev r @ rev b'" by (metis rev_append rev_rev_ident)
  moreover have "strip s = rev r" by (simp add: strip_def r_def t_def)
  ultimately have "s = a @ strip s @ rev b'" using s by simp
  moreover have "\<forall>c \<in> set a. is_space c" unfolding a_def by (auto dest: set_takeWhileD)
  moreover have "\<forall>c \<in> set (rev b'). is_space c" unfolding b'_def by (auto dest: set_takeWhileD)
  ultimately show ?thesis by blast
qed

lemma strip_ends:
  "strip s = [] \<or> (\<not> is_space (hd (strip s)) \<and> \<not> is_space (last (strip s)))"
proof -
  define t where "t = dropWhile is_space s"
  define r where "r = dropWhile is_space (rev t)"
  have st: "strip s = rev r" by (simp add: strip_def r_def t_def)
  show ?thesis
  proof (cases "r = []")
    case True
    then show ?thesis using st by simp
  next
    case False
    have h: "\<not> is_space (hd r)" unfolding r_def using False r_def by (metis hd_dropWhile)
    have "rev t = takeWhile is_space (rev t) @ r" by (simp add: r_def)
    then have "last (rev t) = last r" using False by (metis last_appendR)
    moreover have "t \<noteq> []" using False r_def by auto
    ultimately have "last r = hd t" by (simp add: last_rev)
    moreover have "\<not> is_space (hd t)" using \<open>t \<noteq> []\<close> unfolding t_def by (metis hd_dropWhile)
    ultimately show ?thesis using st False h by (simp add: hd_rev last_rev)
  qed
qed

lemma strip_strip: "strip (strip s) = strip s"
proof (cases "strip s = []")
  case True
  have "strip [] = []" by (simp add: strip_def)
  then show ?thesis using True by simp
next
  case False
  then show ?thesis using strip_ends [of s] by (intro strip_id) auto
qed

lemma strip_spaces:
  assumes "\<forall>c \<in> set ws. is_space c"
  shows "strip ws = []"
proof -
  have e: "dropWhile is_space ws = []" using assms by (induction ws) auto
  show ?thesis unfolding strip_def e by simp
qed

lemma strip_append_spaces:
  assumes "\<forall>c \<in> set ws. is_space c"
  shows "strip (strip s @ ws) = strip s"
proof (cases "strip s = []")
  case True
  then show ?thesis using assms by (simp add: strip_spaces)
next
  case False
  then have "\<not> is_space (hd (strip s))" "\<not> is_space (last (strip s))"
    using strip_ends [of s] by auto
  then have "strip ([] @ strip s @ ws) = dropWhile is_space [] @ strip s @ rev (dropWhile is_space (rev ws))"
    using False by (intro strip_mid) auto
  moreover have "dropWhile is_space (rev ws) = []" using assms by simp
  ultimately show ?thesis by simp
qed

lemma strip_subset: "set (strip s) \<subseteq> set s"
  using strip_infix [of s] by (metis Un_upper1 Un_upper2 set_append subset_trans)

lemma bare_from_infix: "\<not> bare_from (a @ s @ b) \<Longrightarrow> \<not> bare_from s"
  using bare_from_suffix [of "s @ b" a] bare_from_prefix [of s b] by blast

lemma bare_from_strip: "\<not> bare_from s \<Longrightarrow> \<not> bare_from (strip s)"
  using strip_infix [of s] bare_from_infix by metis

subsection \<open>The search for the specifier in a trimmed line\<close>

lemma R_SPECIFIER_at_prefix: "R_SPECIFIER_at pw s \<Longrightarrow> R_SPECIFIER_at pw (s @ t)"
  by (auto simp: R_SPECIFIER_at_def split: list.splits)

lemma R_SPECIFIER_search_prefix:
  "R_SPECIFIER_search_from pw s \<Longrightarrow> R_SPECIFIER_search_from pw (s @ t)"
proof (induction s arbitrary: pw)
  case Nil
  then show ?case by simp
next
  case (Cons c s)
  then show ?case using R_SPECIFIER_at_prefix [of pw "c # s" t] by auto
qed

lemma R_SPECIFIER_search_appendD:
  "R_SPECIFIER_search_from pw (x @ y) \<Longrightarrow>
   R_SPECIFIER_search_from pw x \<or>
   R_SPECIFIER_search_from (if x = [] then pw else is_word (last x)) y \<or>
   (x \<noteq> [] \<and> last x = CHR ''r'' \<and> y \<noteq> [] \<and> is_eq_or_q (hd y))"
proof (induction x arbitrary: pw)
  case Nil
  then show ?case by simp
next
  case (Cons c x)
  from Cons.prems
  have "R_SPECIFIER_at pw (c # x @ y) \<or> R_SPECIFIER_search_from (is_word c) (x @ y)" by simp
  then show ?case
  proof
    assume at: "R_SPECIFIER_at pw (c # x @ y)"
    show ?thesis
    proof (cases x)
      case Nil
      then show ?thesis using at by (auto simp: R_SPECIFIER_at_def split: list.splits)
    next
      case (Cons x1 xs)
      then have "R_SPECIFIER_at pw (c # x)" using at by (simp add: R_SPECIFIER_at_def)
      then show ?thesis by simp
    qed
  next
    assume "R_SPECIFIER_search_from (is_word c) (x @ y)"
    from Cons.IH [OF this] show ?thesis by (cases "x = []") auto
  qed
qed

lemma R_SPECIFIER_search_spaces:
  "\<forall>c \<in> set ws. is_space c \<Longrightarrow> \<not> R_SPECIFIER_search_from pw ws"
proof (induction ws arbitrary: pw)
  case Nil
  then show ?case by simp
next
  case (Cons c ws)
  have "c \<noteq> CHR ''r''" using Cons.prems by (auto simp: is_space_def)
  then have "\<not> R_SPECIFIER_at pw (c # ws)"
    by (auto simp: R_SPECIFIER_at_def split: list.splits)
  then show ?case using Cons by simp
qed

lemma is_space_not_word: "is_space c \<Longrightarrow> \<not> is_word c"
  by (auto simp: is_space_def is_word_def is_ascii_alnum_def)

lemma R_SPECIFIER_search_strip:
  assumes "R_SPECIFIER_search_from False s"
  shows "R_SPECIFIER_search_from False (strip s)"
proof -
  obtain a b where s: "s = a @ strip s @ b" and a: "\<forall>c \<in> set a. is_space c"
      and b: "\<forall>c \<in> set b. is_space c"
    using strip_infix by blast
  have pw: "(if a = [] then False else is_word (last a)) = False"
    using a is_space_not_word by auto
  have la: "a \<noteq> [] \<Longrightarrow> last a \<noteq> CHR ''r''"
  proof
    assume "a \<noteq> []" "last a = CHR ''r''"
    then have "CHR ''r'' \<in> set a" by (metis last_in_set)
    then show False using a by (auto simp: is_space_def)
  qed
  have hb: "b \<noteq> [] \<Longrightarrow> \<not> is_eq_or_q (hd b)"
    using b is_space_props by (cases b) auto
  have "R_SPECIFIER_search_from False (a @ strip s @ b)" using assms s by simp
  then have "R_SPECIFIER_search_from False (strip s @ b)"
    using R_SPECIFIER_search_appendD [of False a "strip s @ b"]
      R_SPECIFIER_search_spaces [OF a, of False] pw la
    by (cases "a = []") auto
  then show ?thesis
    using R_SPECIFIER_search_appendD [of False "strip s" b] R_SPECIFIER_search_spaces [OF b] hb
    by (cases "strip s = []") auto
qed

subsection \<open>The canonical list before other text\<close>

lemma reviewer_None_iff:
  "reviewer s = None \<longleftrightarrow>
     (case s of [] \<Rightarrow> True
      | c # t \<Rightarrow> if c = CHR ''#'' then (case t of [] \<Rightarrow> True | x # _ \<Rightarrow> \<not> is_nick x)
                 else \<not> is_nick c)"
  by (auto simp: reviewer_def Let_def split: list.splits)

lemma next_flag_append_spaces:
  assumes "\<forall>c \<in> set ws. is_space c" and "next_flag (y @ ws)"
  shows "next_flag y"
proof (cases "\<forall>c \<in> set y. is_flagch c")
  case True
  have nf: "\<forall>c \<in> set ws. \<not> is_flagch c"
    using assms(1) by (auto simp: is_space_def is_flagch_def)
  then have "dropWhile is_flagch (y @ ws) = ws"
    using True by (cases ws) (auto simp: dropWhile_append)
  then show ?thesis
    using assms is_space_props by (cases ws) (auto simp: next_flag_def)
next
  case False
  then obtain c where c: "c \<in> set y" "\<not> is_flagch c" by blast
  then have "dropWhile is_flagch (y @ ws) = dropWhile is_flagch y @ ws"
    "takeWhile is_flagch (y @ ws) = takeWhile is_flagch y"
    by (metis dropWhile_append1, metis takeWhile_append1)
  moreover have "dropWhile is_flagch y \<noteq> []" using c by auto
  ultimately show ?thesis
    using assms(2) by (cases "dropWhile is_flagch y") (auto simp: next_flag_def)
qed

lemma additional_reviewers_append_spaces:
  assumes "\<forall>c \<in> set ws. is_space c" and "additional_reviewers (x @ ws) = []"
  shows "additional_reviewers x = []"
proof (cases x)
  case Nil
  then show ?thesis by simp
next
  case (Cons c t)
  show ?thesis
  proof (cases "is_list c")
    case False
    then show ?thesis using Cons by simp
  next
    case True
    define y where "y = dropWhile is_space t"
    have stop: "next_flag (dropWhile is_space (t @ ws)) \<or> reviewer (dropWhile is_space (t @ ws)) = None"
      using assms(2) Cons True by (auto split: if_splits option.splits)
    have "next_flag y \<or> reviewer y = None"
    proof (cases "y = []")
      case True
      then show ?thesis by (simp add: reviewer_def)
    next
      case False
      then obtain z where "z \<in> set t" "\<not> is_space z" unfolding y_def by auto
      then have dw: "dropWhile is_space (t @ ws) = y @ ws"
        unfolding y_def by (metis dropWhile_append1)
      from stop show ?thesis
      proof
        assume "next_flag (dropWhile is_space (t @ ws))"
        then show ?thesis using next_flag_append_spaces [OF assms(1), of y] dw by simp
      next
        assume "reviewer (dropWhile is_space (t @ ws)) = None"
        then have "reviewer (y @ ws) = None" using dw by simp
        then have "reviewer y = None"
          using False unfolding reviewer_None_iff
          by (cases y; cases "tl y") (auto split: if_splits)
        then show ?thesis by simp
      qed
    qed
    then show ?thesis using Cons True by (auto simp: y_def)
  qed
qed

lemma ends_list_rstrip:
  assumes "ends_list v"
  shows "ends_list (rev (dropWhile is_space (rev v)))"
proof -
  define V where "V = rev (dropWhile is_space (rev v))"
  define ws where "ws = rev (takeWhile is_space (rev v))"
  have "rev v = takeWhile is_space (rev v) @ dropWhile is_space (rev v)" by simp
  then have v: "v = V @ ws" unfolding V_def ws_def by (metis rev_append rev_rev_ident)
  have ws: "\<forall>c \<in> set ws. is_space c" unfolding ws_def by (auto dest: set_takeWhileD)
  have "additional_reviewers (V @ ws) = []" using assms v by (simp add: ends_list_def)
  then have 1: "additional_reviewers V = []"
    using ws by (rule additional_reviewers_append_spaces [rotated])
  have 2: "(case V of [] \<Rightarrow> True
      | c # _ \<Rightarrow> \<not> (is_nick c \<or> is_flagch c \<or> c = CHR ''!'' \<or> is_eq_or_q c))"
    using assms v by (cases V) (auto simp: ends_list_def)
  show ?thesis using 1 2 unfolding V_def ends_list_def by simp
qed

lemma reviewer_nick_then:
  assumes "r \<noteq> []" and "\<forall>c \<in> set r. is_nick c"
    and "rest = [] \<or> (\<not> is_nick (hd rest) \<and> hd rest \<noteq> CHR ''!'')"
  shows "reviewer (r @ rest) = Some r"
proof -
  have h: "hd r \<noteq> CHR ''#''" using assms(1,2) by (cases r) (auto simp: is_nick_def is_ascii_alnum_def)
  have hh: "(case r @ rest of [] \<Rightarrow> [] | c # _ \<Rightarrow> if c = CHR ''#'' then [c] else []) = []"
    using assms(1) h by (cases r) auto
  have tw: "takeWhile is_nick (r @ rest) = r"
    using assms(2,3) by (cases rest) auto
  have dw: "dropWhile is_nick (r @ rest) = rest"
    using assms(2,3) by (cases rest) auto
  have bang: "(case rest of [] \<Rightarrow> [] | c # _ \<Rightarrow> if c = CHR ''!'' then [c] else []) = []"
    using assms(3) by (cases rest) auto
  show ?thesis
    unfolding reviewer_def Let_def hh using tw dw bang assms(1) by simp
qed

lemma next_flag_nick_then:
  assumes "\<forall>c \<in> set r. is_nick c"
    and "rest = [] \<or> (\<not> is_flagch (hd rest) \<and> \<not> is_eq_or_q (hd rest))"
  shows "\<not> next_flag (r @ rest)"
proof (cases "\<forall>c \<in> set r. is_flagch c")
  case True
  then have "dropWhile is_flagch (r @ rest) = dropWhile is_flagch rest"
    by (simp add: dropWhile_append)
  also have "\<dots> = rest" using assms(2) by (cases rest) auto
  finally have eq: "dropWhile is_flagch (r @ rest) = rest" .
  have "\<not> (case rest of [] \<Rightarrow> False | d # _ \<Rightarrow> is_eq_or_q d)"
    using assms(2) by (cases rest) auto
  then show ?thesis unfolding next_flag_def eq by simp
next
  case False
  then obtain c where c: "c \<in> set r" "\<not> is_flagch c" by blast
  then have dw: "dropWhile is_flagch (r @ rest) = dropWhile is_flagch r @ rest"
    by (metis dropWhile_append1)
  have "dropWhile is_flagch r \<noteq> []" using c by auto
  then obtain x xs where x: "dropWhile is_flagch r = x # xs" by (cases "dropWhile is_flagch r") auto
  then have "x \<in> set r" by (rule dropWhile_Cons_in)
  then have "\<not> is_eq_or_q x" using assms(1) is_nick_props by blast
  then show ?thesis using dw x by (simp add: next_flag_def)
qed

lemma additional_reviewers_join_then:
  assumes "\<forall>r \<in> set rs. r \<noteq> [] \<and> (\<forall>c \<in> set r. is_nick c)" and "ends_list v"
  shows "additional_reviewers ((if rs = [] then [] else '','' @ join '','' rs) @ v) =
           (if rs = [] then [] else '','' @ join '','' rs)"
  using assms(1)
proof (induction rs)
  case Nil
  then show ?case using assms(2) by (simp add: ends_list_def)
next
  case (Cons r rs)
  define rest where "rest = (if rs = [] then [] else '','' @ join '','' rs) @ v"
  define rest0 where "rest0 = (if rs = [] then [] else '','' @ join '','' rs)"
  have j: "join '','' (r # rs) = r @ rest0"
    by (simp add: join_Cons rest0_def)
  have rest: "rest = rest0 @ v" by (simp add: rest_def rest0_def)
  have r: "r \<noteq> []" "\<forall>c \<in> set r. is_nick c" using Cons.prems by auto
  have hd_rest: "rest = [] \<or> (\<not> is_nick (hd rest) \<and> hd rest \<noteq> CHR ''!'' \<and>
                   \<not> is_flagch (hd rest) \<and> \<not> is_eq_or_q (hd rest))"
  proof (cases "rs = []")
    case True
    then show ?thesis using assms(2)
      by (cases v) (auto simp: rest_def ends_list_def)
  next
    case False
    then show ?thesis
      by (simp add: rest_def is_nick_def is_ascii_alnum_def is_flagch_def is_eq_or_q_def)
  qed
  have sp: "dropWhile is_space (r @ rest) = r @ rest" "takeWhile is_space (r @ rest) = []"
    using r is_nick_props by (cases r; auto)+
  have nf: "\<not> next_flag (r @ rest)"
    using r(2) hd_rest by (intro next_flag_nick_then) auto
  have rv: "reviewer (r @ rest) = Some r"
    using r hd_rest by (intro reviewer_nick_then) auto
  have more: "additional_reviewers rest = rest0"
    using Cons unfolding rest_def rest0_def by simp
  have "additional_reviewers (CHR '','' # r @ rest) = CHR '','' # r @ rest0"
    using sp nf rv more by (simp add: is_list_def)
  then show ?case using j rest by simp
qed

lemma reviewers_group_join_then:
  assumes "rs \<noteq> []" and "\<forall>r \<in> set rs. r \<noteq> [] \<and> (\<forall>c \<in> set r. is_nick c)" and "ends_list v"
  shows "reviewers_group (join '','' rs @ v) = join '','' rs"
proof -
  obtain r rs' where rs: "rs = r # rs'" using assms(1) by (cases rs) auto
  define rest0 where "rest0 = (if rs' = [] then [] else '','' @ join '','' rs')"
  have j: "join '','' rs = r @ rest0" by (simp add: rs join_Cons rest0_def)
  have r: "r \<noteq> []" "\<forall>c \<in> set r. is_nick c" using assms(2) rs by auto
  have hd_rest: "rest0 @ v = [] \<or> (\<not> is_nick (hd (rest0 @ v)) \<and> hd (rest0 @ v) \<noteq> CHR ''!'')"
  proof (cases "rs' = []")
    case True
    then show ?thesis using assms(3) by (cases v) (auto simp: rest0_def ends_list_def)
  next
    case False
    then show ?thesis by (simp add: rest0_def is_nick_def is_ascii_alnum_def)
  qed
  have "reviewer (r @ rest0 @ v) = Some r"
    using r hd_rest by (rule reviewer_nick_then)
  moreover have "additional_reviewers (rest0 @ v) = rest0"
    unfolding rest0_def using additional_reviewers_join_then [of rs' v] assms(2,3) rs by simp
  ultimately show ?thesis
    unfolding j by (simp add: reviewers_group_def)
qed

subsection \<open>The result of the rewrite\<close>

lemma bare_from_has_eq_or_q: "bare_from s \<Longrightarrow> \<exists>c \<in> set (drop 2 s). is_eq_or_q c"
proof (induction s)
  case Nil
  then show ?case by simp
next
  case (Cons c s)
  from Cons.prems have "bare_at (c # s) \<or> bare_from s" by simp
  then show ?case
  proof
    assume "bare_at (c # s)"
    then obtain e t where "s = CHR ''r'' # e # t" "is_eq_or_q e"
      unfolding bare_at_iff by auto
    then show ?thesis by auto
  next
    assume "bare_from s"
    then obtain x where "x \<in> set (drop 2 s)" "is_eq_or_q x" using Cons.IH by blast
    moreover have "set (drop 2 s) \<subseteq> set (drop 1 s)"
      by (metis One_nat_def Suc_1 drop_Suc set_drop_subset tl_drop drop_0 drop_drop plus_1_eq_Suc)
    ultimately show ?thesis by auto
  qed
qed

lemma dropWhile_snoc:
  "dropWhile P (u @ [d]) = [] \<or> (\<exists>p U. u = p @ U \<and> dropWhile P (u @ [d]) = U @ [d])"
proof (induction u)
  case Nil
  then show ?case by auto
next
  case (Cons c u)
  show ?case
  proof (cases "P c")
    case True
    from Cons show ?thesis
    proof
      assume "dropWhile P (u @ [d]) = []"
      then show ?thesis using True by simp
    next
      assume "\<exists>p U. u = p @ U \<and> dropWhile P (u @ [d]) = U @ [d]"
      then obtain p U where "u = p @ U" "dropWhile P (u @ [d]) = U @ [d]" by blast
      then have "c # u = (c # p) @ U" "dropWhile P ((c # u) @ [d]) = U @ [d]"
        using True by simp_all
      then show ?thesis by blast
    qed
  next
    case False
    then have "c # u = [] @ (c # u)" "dropWhile P ((c # u) @ [d]) = (c # u) @ [d]" by simp_all
    then show ?thesis by blast
  qed
qed

lemma rstrip_prefix:
  "\<exists>ws. v = rev (dropWhile is_space (rev v)) @ ws"
proof -
  have "rev v = takeWhile is_space (rev v) @ dropWhile is_space (rev v)" by simp
  then have "v = rev (dropWhile is_space (rev v)) @ rev (takeWhile is_space (rev v))"
    by (metis rev_append rev_rev_ident)
  then show ?thesis by blast
qed


text \<open>The result on a line with one bare annotation.\<close>

lemma rewrite_one_bare:
  assumes lb: "\<forall>c \<in> set line. \<not> is_linebreak c"
    and shape: "line = u @ d # CHR ''r'' # e # old @ v" "is_before d" "is_eq_or_q e"
      "\<not> bare_from u" "reviewers_group (old @ v) = old" "\<not> bare_from v"
    and nul: "NUL \<notin> set line" "NUL \<notin> set (reviewers_str_of reviewers)"
  shows "replace_reviewers line reviewers =
           Inr (strip (u @ d # reviewers_str_of reviewers @ v))"
proof -
  define rstr where "rstr = reviewers_str_of reviewers"
  have ne: "line \<noteq> []" using shape(1) by simp
  have "bare_at (d # CHR ''r'' # e # old @ v)"
    unfolding bare_at_iff using shape(2,3) by blast
  then have "bare_from (u @ d # CHR ''r'' # e # old @ v)"
    by (intro bare_from_suffix) simp
  then have search: "R_SPECIFIER_RE_search line"
    unfolding R_SPECIFIER_RE_search_def shape(1) by (rule bare_from_search)
  have "sub_reviewers True rstr line =
          u @ (d # rstr) @ sub_reviewers False rstr (drop (length (reviewers_group (old @ v))) (old @ v))"
    unfolding shape(1) using sub_reviewers_bare [OF shape(2,3,4), of True rstr "old @ v"] by simp
  also have "\<dots> = u @ d # rstr @ v"
    using shape(5,6) by (simp add: sub_reviewers_bare_free)
  finally have sub: "sub_reviewers True rstr line = u @ d # rstr @ v" .
  have "NUL \<notin> set (u @ d # rstr @ v)"
    using nul shape(1) by (auto simp: rstr_def)
  then have "rewrite_summary rstr line = u @ d # rstr @ v"
    using search sub by (simp add: rewrite_summary_def sub_list_marker_no_NUL sub_marker_no_NUL)
  then show ?thesis using lb ne by (simp add: replace_reviewers_line rstr_def)
qed








lemma reviewers_str_chars:
  assumes "\<forall>r \<in> set reviewers. r \<noteq> [] \<and> (\<forall>c \<in> set r. is_nick c)"
  shows "NUL \<notin> set (reviewers_str_of reviewers)"
    and "\<forall>c \<in> set (reviewers_str_of reviewers). \<not> is_linebreak c"
    and "strip (reviewers_str_of reviewers) = reviewers_str_of reviewers"
proof -
  have names_chars: "\<forall>c \<in> set (join '','' reviewers). is_nick c \<or> c = CHR '',''"
    using assms by (intro join_chars) auto
  show "NUL \<notin> set (reviewers_str_of reviewers)"
    using names_chars is_nick_props by (auto simp: reviewers_str_of_def NUL_def)
  show "\<forall>c \<in> set (reviewers_str_of reviewers). \<not> is_linebreak c"
    using names_chars is_nick_props by (auto simp: reviewers_str_of_def is_linebreak_def)
  show "strip (reviewers_str_of reviewers) = reviewers_str_of reviewers"
  proof (cases "reviewers = []")
    case True
    then show ?thesis by (simp add: reviewers_str_of_def strip_def)
  next
    case False
    have "join '','' reviewers \<noteq> []" using False assms by (intro join_nonempty) auto
    moreover have "is_nick (last (join '','' reviewers))" using False assms by (rule join_last_nick)
    ultimately show ?thesis
      using False is_nick_props
      by (intro strip_id) (auto simp: reviewers_str_of_def is_space_def)
  qed
qed




text \<open>
  With more than one bare annotation, removing a marker with the list delimiter before it
  can join two pieces of text into a bare annotation: the line that comes back then has two.
\<close>

lemma bare_annotation_from_removal:
  "replace_reviewers ''Bug r=x r; r?y=z'' [''alice''] = Inr ''Bug r=alice r=z'' \<and>
   filter (\<lambda>m. R_SPECIFIER_RE_match (fst (snd m))) (finditer_reviewers ''Bug r=alice r=z'') =
     [('' '', ''r='', ''alice''), ('' '', ''r='', ''z'')]"
  by code_simp

text \<open>
  When the text after the first bare annotation continues a reviewer list, the annotation
  of the line that comes back lists more than the supplied reviewers.
\<close>

lemma annotation_lists_more_than_supplied:
  "replace_reviewers ''Land r?, carol'' [''dave''] = Inr ''Land r=dave, carol'' \<and>
   filter (\<lambda>m. R_SPECIFIER_RE_match (fst (snd m))) (finditer_reviewers ''Land r=dave, carol'') =
     [('' '', ''r='', ''dave, carol'')] \<and>
   \<not> ends_list '', carol''"
  by code_simp

section \<open>Rewriting twice\<close>

text \<open>With the empty set, a line without bare annotation comes back trimmed.\<close>

lemma empty_set_fixed:
  assumes "\<not> bare_from x" and "NUL \<notin> set x" and "\<forall>c \<in> set x. \<not> is_linebreak c"
  shows "replace_reviewers (strip x) [] = Inr (strip x)"
proof (cases "strip x = []")
  case True
  then show ?thesis by (simp add: replace_reviewers_def reviewers_str_of_def)
next
  case False
  have sub: "set (strip x) \<subseteq> set x" by (rule strip_subset)
  have lb: "\<forall>c \<in> set (strip x). \<not> is_linebreak c" using assms(3) sub by auto
  have nul: "NUL \<notin> set (strip x)" using assms(2) sub by auto
  have nb: "\<not> bare_from (strip x)" using assms(1) by (rule bare_from_strip)
  have "strip (rewrite_summary [] (strip x)) = strip x"
  proof (cases "R_SPECIFIER_RE_search (strip x)")
    case True
    then have "rewrite_summary [] (strip x) = strip x"
      using nb nul
      by (simp add: rewrite_summary_def sub_reviewers_bare_free sub_list_marker_no_NUL
            sub_marker_no_NUL)
    then show ?thesis by (simp add: strip_strip)
  next
    case False
    then have "rewrite_summary [] (strip x) = strip x @ '' ''"
      by (simp add: rewrite_summary_def)
    moreover have "strip (strip x @ '' '') = strip x"
      by (rule strip_append_spaces) (simp add: is_space_def)
    ultimately show ?thesis by simp
  qed
  then show ?thesis
    using lb False by (simp add: replace_reviewers_line reviewers_str_of_def)
qed

text \<open>A line that carries the canonical annotation comes back as it is.\<close>

lemma canonical_fixed:
  assumes rs: "reviewers \<noteq> []" "\<forall>r \<in> set reviewers. r \<noteq> [] \<and> (\<forall>c \<in> set r. is_nick c)"
    and d: "is_before d"
    and u: "\<not> bare_from u" "NUL \<notin> set u" "\<forall>c \<in> set u. \<not> is_linebreak c"
    and v: "\<not> bare_from v" "ends_list v" "NUL \<notin> set v" "\<forall>c \<in> set v. \<not> is_linebreak c"
    and dlb: "\<not> is_linebreak d"
  shows "replace_reviewers (strip (u @ d # ''r='' @ join '','' reviewers @ v)) reviewers =
           Inr (strip (u @ d # ''r='' @ join '','' reviewers @ v))"
proof -
  define names where "names = join '','' reviewers"
  define rstr where "rstr = ''r='' @ names"
  define S where "S = u @ d # ''r='' @ names @ v"
  define V where "V = rev (dropWhile is_space (rev v))"
  define U where "U = dropWhile is_space (u @ [d])"
  define out where "out = strip S"
  have rstr: "reviewers_str_of reviewers = rstr"
    using rs(1) by (simp add: reviewers_str_of_def rstr_def names_def)
  have names_ne: "names \<noteq> []"
    unfolding names_def using rs by (intro join_nonempty) auto
  have names_chars: "\<forall>c \<in> set names. is_nick c \<or> c = CHR '',''"
    unfolding names_def using rs(2) by (intro join_chars) auto
  have names_last: "is_nick (last names)"
    unfolding names_def using rs by (rule join_last_nick)
  have names_eq: "\<forall>c \<in> set names. \<not> is_eq_or_q c"
    using names_chars is_nick_props by (auto simp: is_eq_or_q_def)
  have names_lb: "\<forall>c \<in> set names. \<not> is_linebreak c"
    using names_chars is_nick_props by (auto simp: is_linebreak_def)
  have names_nul: "NUL \<notin> set names"
    using names_chars is_nick_props by (auto simp: NUL_def)
  have dnul: "d \<noteq> NUL" using d by (auto simp: is_before_def is_space_def NUL_def)

  have "strip ((u @ [d]) @ rstr @ v) = U @ rstr @ V"
    unfolding U_def V_def
    using names_last names_ne is_nick_props
    by (intro strip_mid) (auto simp: rstr_def is_space_def)
  then have out: "out = U @ rstr @ V" by (simp add: out_def S_def rstr_def)
  have out_ne: "out \<noteq> []" by (simp add: out rstr_def)
  have Slb: "\<forall>c \<in> set S. \<not> is_linebreak c"
    using u(3) v(4) dlb names_lb by (auto simp: S_def is_linebreak_def)
  have Snul: "NUL \<notin> set S"
    using u(2) v(3) dnul names_nul by (auto simp: S_def NUL_def)
  have out_lb: "\<forall>c \<in> set out. \<not> is_linebreak c"
    using Slb strip_subset [of S] by (auto simp: out_def)
  have out_nul: "NUL \<notin> set out"
    using Snul strip_subset [of S] by (auto simp: out_def)
  have out_strip: "strip out = out" by (simp add: out_def strip_strip)

  obtain ws where vV: "v = V @ ws" using rstrip_prefix [of v] by (auto simp: V_def)
  have Vbare: "\<not> bare_from V" using v(1) vV bare_from_prefix [of V ws] by auto
  have Vends: "ends_list V" unfolding V_def using v(2) by (rule ends_list_rstrip)
  have group: "reviewers_group (names @ V) = names"
    unfolding names_def using rs Vends by (rule reviewers_group_join_then)

  have "rewrite_summary rstr out = out"
  proof (cases "U = []")
    case True
    then have o: "out = CHR ''r'' # CHR ''='' # names @ V" by (simp add: out rstr_def)
    have "\<not> bare_from out"
    proof
      assume "bare_from out"
      then have "bare_from ((CHR ''r'' # CHR ''='' # names) @ V)" by (simp add: o)
      then consider "bare_from (CHR ''r'' # CHR ''='' # names)" | "bare_from V"
        | "is_before (last (CHR ''r'' # CHR ''='' # names))"
        | "V \<noteq> []" "is_eq_or_q (hd V)"
        using bare_from_appendD [of "CHR ''r'' # CHR ''='' # names" V] by auto
      then show False
      proof cases
        case 1
        then show False using bare_from_has_eq_or_q [OF 1] names_eq by auto
      next
        case 2
        then show False using Vbare by simp
      next
        case 3
        then have "is_before (last names)" using names_ne by simp
        then show False using names_last is_before_props by blast
      next
        case 4
        then show False using Vends by (cases V) (auto simp: ends_list_def)
      qed
    qed
    moreover have "R_SPECIFIER_RE_search out"
      by (simp add: o R_SPECIFIER_RE_search_def R_SPECIFIER_at_def is_eq_or_q_def)
    ultimately show ?thesis
      using out_nul
      by (simp add: rewrite_summary_def sub_reviewers_bare_free sub_list_marker_no_NUL
            sub_marker_no_NUL)
  next
    case False
    then obtain p U' where U': "u = p @ U'" "U = U' @ [d]"
      using dropWhile_snoc [of is_space u d] by (auto simp: U_def)
    have o: "out = U' @ d # CHR ''r'' # CHR ''='' # names @ V"
      by (simp add: out U'(2) rstr_def)
    have U'bare: "\<not> bare_from U'" using u(1) U'(1) bare_from_suffix [of U' p] by auto
    have eq: "is_eq_or_q CHR ''=''" by (simp add: is_eq_or_q_def)
    have "sub_reviewers True rstr out =
            U' @ (d # rstr) @
            sub_reviewers False rstr (drop (length (reviewers_group (names @ V))) (names @ V))"
      unfolding o using sub_reviewers_bare [OF d eq U'bare, of True rstr "names @ V"] by simp
    also have "\<dots> = U' @ d # rstr @ V"
      using group Vbare by (simp add: sub_reviewers_bare_free)
    finally have sub: "sub_reviewers True rstr out = out" by (simp add: o rstr_def)
    have "bare_at (d # CHR ''r'' # CHR ''='' # names @ V)"
      unfolding bare_at_iff using d eq by blast
    then have "bare_from (U' @ d # CHR ''r'' # CHR ''='' # names @ V)"
      by (intro bare_from_suffix) simp
    then have "R_SPECIFIER_RE_search out"
      unfolding R_SPECIFIER_RE_search_def o by (rule bare_from_search)
    then show ?thesis
      using sub out_nul
      by (simp add: rewrite_summary_def sub_list_marker_no_NUL sub_marker_no_NUL)
  qed
  then have "replace_reviewers out reviewers = Inr out"
    using out_lb out_ne out_strip by (simp add: replace_reviewers_line rstr)
  then show ?thesis by (simp add: out_def S_def names_def)
qed

lemma sub_reviewers_subset:
  "set (sub_reviewers first rstr s) \<subseteq> set s \<union> set rstr \<union> {NUL}"
proof (induction first rstr s rule: sub_reviewers.induct)
  case (1 first rstr)
  then show ?case by simp
next
  case (2 first rstr c cs)
  show ?case
  proof (cases "REVIEWERS_RE_match (c # cs)")
    case None
    then show ?thesis using "2.IH"(1) by auto
  next
    case (Some m)
    obtain g1 g2 g3 where m: "m = (g1, g2, g3)" by (cases m) auto
    obtain rest where parts: "g1 = [c]" "cs = g2 @ g3 @ rest"
        "drop (length g2 + length g3) cs = rest"
      using REVIEWERS_RE_match_SomeD [OF Some [unfolded m]] by auto
    define first' where "first' = snd (replace_first_reviewer rstr first (g1, g2, g3))"
    have "set (sub_reviewers first' rstr (drop (length g2 + length g3) cs)) \<subseteq>
            set (drop (length g2 + length g3) cs) \<union> set rstr \<union> {NUL}"
      unfolding first'_def using "2.IH"(2) [OF Some m [symmetric] refl] by simp
    then have IH: "set (sub_reviewers first' rstr rest) \<subseteq> set rest \<union> set rstr \<union> {NUL}"
      using parts(3) by simp
    have "set (fst (replace_first_reviewer rstr first (g1, g2, g3))) \<subseteq>
            set (c # cs) \<union> set rstr \<union> {NUL}"
      using parts(1,2) by (auto simp: replace_first_reviewer_def)
    moreover have "set rest \<subseteq> set (c # cs)" using parts(2) by auto
    moreover have "sub_reviewers first rstr (c # cs) =
        fst (replace_first_reviewer rstr first (g1, g2, g3)) @ sub_reviewers first' rstr rest"
      using Some m parts(3) by (simp add: first'_def)
    ultimately show ?thesis using IH by auto
  qed
qed

lemma sub_list_marker_subset: "set (sub_list_marker s) \<subseteq> set s"
proof (induction s rule: sub_list_marker.induct)
  case 1
  then show ?case by simp
next
  case (2 c cs)
  show ?case
  proof (cases "is_list c \<and> (case dropWhile is_space cs of [] \<Rightarrow> False | d # _ \<Rightarrow> d = NUL)")
    case True
    have "set (tl (dropWhile is_space cs)) \<subseteq> set cs"
      by (metis list.set_sel(2) set_dropWhileD subsetI tl_Nil)
    then show ?thesis using True "2.IH"(1) by auto
  next
    case False
    then show ?thesis using "2.IH"(2) by auto
  qed
qed

text \<open>The first result is trimmed, and has neither marker nor line break.\<close>

lemma first_result_props:
  assumes lb: "\<forall>c \<in> set line. \<not> is_linebreak c" and nul: "NUL \<notin> set line"
    and rs: "\<forall>r \<in> set reviewers. r \<noteq> [] \<and> (\<forall>c \<in> set r. is_nick c)"
    and res: "replace_reviewers line reviewers = Inr out"
  shows "strip out = out" and "NUL \<notin> set out" and "\<forall>c \<in> set out. \<not> is_linebreak c"
proof -
  define rstr where "rstr = reviewers_str_of reviewers"
  note rc = reviewers_str_chars [OF rs, folded rstr_def]
  have "strip out = out \<and> NUL \<notin> set out \<and> (\<forall>c \<in> set out. \<not> is_linebreak c)"
  proof (cases "line = []")
    case True
    then have "out = rstr" using res by (simp add: replace_reviewers_def rstr_def)
    then show ?thesis using rc by simp
  next
    case False
    define s where "s = rewrite_summary rstr line"
    have out: "out = strip s"
      using res lb False by (simp add: replace_reviewers_line s_def rstr_def)
    have sub: "set out \<subseteq> set s" unfolding out by (rule strip_subset)
    have s_set: "set s \<subseteq> set line \<union> set rstr \<union> {CHR '' '', NUL}"
    proof (cases "R_SPECIFIER_RE_search line")
      case True
      have "set s \<subseteq> set (sub_list_marker (sub_reviewers True rstr line))"
        using True by (auto simp: s_def rewrite_summary_def sub_marker_def)
      also have "\<dots> \<subseteq> set (sub_reviewers True rstr line)" by (rule sub_list_marker_subset)
      also have "\<dots> \<subseteq> set line \<union> set rstr \<union> {NUL}" by (rule sub_reviewers_subset)
      finally show ?thesis by auto
    next
      case False
      then show ?thesis by (auto simp: s_def rewrite_summary_def)
    qed
    have s_nul: "NUL \<notin> set s"
    proof (cases "R_SPECIFIER_RE_search line")
      case True
      then show ?thesis by (simp add: s_def rewrite_summary_def sub_marker_def)
    next
      case False
      then show ?thesis using nul rc(1) by (auto simp: s_def rewrite_summary_def NUL_def)
    qed
    have "\<forall>c \<in> set s. \<not> is_linebreak c"
    proof
      fix c assume "c \<in> set s"
      then consider "c \<in> set line" | "c \<in> set rstr" | "c = CHR '' ''" | "c = NUL"
        using s_set by auto
      then show "\<not> is_linebreak c"
        using lb rc(2) by cases (auto simp: is_linebreak_def NUL_def)
    qed
    then show ?thesis using sub s_nul by (auto simp: out strip_strip)
  qed
  then show "strip out = out" and "NUL \<notin> set out" and "\<forall>c \<in> set out. \<not> is_linebreak c"
    by simp_all
qed

text \<open>A line without bare annotation that has the specifier somewhere comes back trimmed.\<close>

lemma bare_free_fixed:
  assumes "\<not> bare_from x" and "R_SPECIFIER_RE_search x" and "NUL \<notin> set x"
    and "\<forall>c \<in> set x. \<not> is_linebreak c"
  shows "replace_reviewers x reviewers = Inr (strip x)"
    and "replace_reviewers (strip x) reviewers = Inr (strip x)"
proof -
  have ne: "x \<noteq> []" using assms(2) by (auto simp: R_SPECIFIER_RE_search_def)
  have "rewrite_summary (reviewers_str_of reviewers) x = x"
    using assms(1,2,3)
    by (simp add: rewrite_summary_def sub_reviewers_bare_free sub_list_marker_no_NUL
          sub_marker_no_NUL)
  then show "replace_reviewers x reviewers = Inr (strip x)"
    using assms(4) ne by (simp add: replace_reviewers_line)
  have s: "R_SPECIFIER_RE_search (strip x)"
    using assms(2) unfolding R_SPECIFIER_RE_search_def by (rule R_SPECIFIER_search_strip)
  then have ne': "strip x \<noteq> []" by (auto simp: R_SPECIFIER_RE_search_def)
  have sub: "set (strip x) \<subseteq> set x" by (rule strip_subset)
  have "\<not> bare_from (strip x)" using assms(1) by (rule bare_from_strip)
  moreover have "NUL \<notin> set (strip x)" using assms(3) sub by auto
  ultimately have "rewrite_summary (reviewers_str_of reviewers) (strip x) = strip x"
    using s
    by (simp add: rewrite_summary_def sub_reviewers_bare_free sub_list_marker_no_NUL
          sub_marker_no_NUL)
  moreover have "\<forall>c \<in> set (strip x). \<not> is_linebreak c" using assms(4) sub by auto
  ultimately show "replace_reviewers (strip x) reviewers = Inr (strip x)"
    using ne' by (simp add: replace_reviewers_line strip_strip)
qed

text \<open>Without the annotation, a line with one bare annotation has none.\<close>

lemma bare_free_without:
  assumes "is_before d" and "\<not> bare_from u" and "\<not> bare_from v" and "ends_list v"
  shows "\<not> bare_from (u @ d # v)"
proof
  assume "bare_from (u @ d # v)"
  then consider "bare_from u" | "bare_from (d # v)"
    | "\<exists>e t. d # v = CHR ''r'' # e # t"
    | "is_eq_or_q (hd (d # v))"
    using bare_from_appendD [of u "d # v"] by auto
  then show False
  proof cases
    case 1
    then show False using assms(2) by simp
  next
    case 2
    then have "bare_at (d # v)" using assms(3) by simp
    then obtain e t where "v = CHR ''r'' # e # t" unfolding bare_at_iff by auto
    then show False using assms(4) by (simp add: ends_list_def is_nick_def is_ascii_alnum_def)
  next
    case 3
    then show False using is_before_props [OF assms(1)] by auto
  next
    case 4
    then show False using is_before_props [OF assms(1)] by auto
  qed
qed

lemma bare_free_space: "\<not> bare_from line \<Longrightarrow> \<not> bare_from (line @ '' '')"
proof
  assume nb: "\<not> bare_from line" and "bare_from (line @ '' '')"
  then consider "bare_from '' ''" | "is_eq_or_q (hd '' '')"
    using bare_from_appendD [of line "'' ''"] by auto
  then show False by cases (auto simp: bare_at_iff is_eq_or_q_def)
qed

text \<open>A first result of the canonical form comes back as it is.\<close>

lemma stable_result:
  assumes st: "strip out = out" and nul: "NUL \<notin> set out"
    and lb: "\<forall>c \<in> set out. \<not> is_linebreak c"
    and rs: "\<forall>r \<in> set reviewers. r \<noteq> [] \<and> (\<forall>c \<in> set r. is_nick c)"
    and form: "(\<not> bare_from out \<and> (reviewers = [] \<or> R_SPECIFIER_RE_search out)) \<or>
       (reviewers \<noteq> [] \<and> out = p @ b # ''r='' @ join '','' reviewers @ q \<and> is_before b \<and>
        \<not> bare_from p \<and> \<not> bare_from q \<and> ends_list q)"
  shows "replace_reviewers out reviewers = Inr out"
proof -
  consider "\<not> bare_from out" "R_SPECIFIER_RE_search out"
    | "\<not> bare_from out" "reviewers = []"
    | "reviewers \<noteq> []" "out = p @ b # ''r='' @ join '','' reviewers @ q" "is_before b"
      "\<not> bare_from p" "\<not> bare_from q" "ends_list q"
    using form by blast
  then show ?thesis
  proof cases
    case 1
    then show ?thesis using bare_free_fixed(2) [OF 1 nul lb, of reviewers] st by simp
  next
    case 2
    then show ?thesis using empty_set_fixed [OF 2(1) nul lb] st by simp
  next
    case 3
    have "NUL \<notin> set p" "NUL \<notin> set q" "\<forall>c \<in> set p. \<not> is_linebreak c"
      "\<forall>c \<in> set q. \<not> is_linebreak c" "\<not> is_linebreak b"
      using nul lb unfolding 3(2) by auto
    then have "replace_reviewers (strip (p @ b # ''r='' @ join '','' reviewers @ q)) reviewers =
                 Inr (strip (p @ b # ''r='' @ join '','' reviewers @ q))"
      using 3 rs by (intro canonical_fixed) auto
    then show ?thesis using st unfolding 3(2) by simp
  qed
qed

text \<open>
  C8, as amended. For every summary line (no line break) without NUL and every reviewer set
  of non-empty names over \<open>[a-zA-Z0-9_-]\<close>, the empty set included, applying
  \<open>replace_reviewers\<close> to its own result with the same set gives that result again

  \<^item> when the line has no bare annotation (\<open>r=\<close> or \<open>r?\<close> after a delimiter), or has one only
    and the text after the reviewers of that annotation does not continue a reviewer list;

  \<^item> and, whatever the line, when the first result has no bare annotation (and the set is
    empty or the result has \<open>r=\<close> or \<open>r?\<close> after a word boundary), or has the canonical
    annotation of the set as its only bare annotation, before a text that does not continue
    a reviewer list.
\<close>

theorem rewrite_twice_same:
  assumes lb: "\<forall>c \<in> set line. \<not> is_linebreak c" and nul: "NUL \<notin> set line"
    and rs: "\<forall>r \<in> set reviewers. r \<noteq> [] \<and> (\<forall>c \<in> set r. is_nick c)"
  shows
    "(\<not> bare_from line \<or>
       (line = u @ d # CHR ''r'' # e # old @ v \<and> is_before d \<and> is_eq_or_q e \<and>
        \<not> bare_from u \<and> reviewers_group (old @ v) = old \<and> \<not> bare_from v \<and> ends_list v) \<longrightarrow>
       (\<exists>out. replace_reviewers line reviewers = Inr out \<and>
              replace_reviewers out reviewers = Inr out)) \<and>
     (replace_reviewers line reviewers = Inr res \<and>
       ((\<not> bare_from res \<and> (reviewers = [] \<or> R_SPECIFIER_RE_search res)) \<or>
        (reviewers \<noteq> [] \<and> res = p @ b # ''r='' @ join '','' reviewers @ q \<and> is_before b \<and>
         \<not> bare_from p \<and> \<not> bare_from q \<and> ends_list q)) \<longrightarrow>
       replace_reviewers res reviewers = Inr res)"
proof (intro conjI impI)
  assume "replace_reviewers line reviewers = Inr res \<and>
       ((\<not> bare_from res \<and> (reviewers = [] \<or> R_SPECIFIER_RE_search res)) \<or>
        (reviewers \<noteq> [] \<and> res = p @ b # ''r='' @ join '','' reviewers @ q \<and> is_before b \<and>
         \<not> bare_from p \<and> \<not> bare_from q \<and> ends_list q))"
  then have res: "replace_reviewers line reviewers = Inr res"
    and form: "(\<not> bare_from res \<and> (reviewers = [] \<or> R_SPECIFIER_RE_search res)) \<or>
        (reviewers \<noteq> [] \<and> res = p @ b # ''r='' @ join '','' reviewers @ q \<and> is_before b \<and>
         \<not> bare_from p \<and> \<not> bare_from q \<and> ends_list q)"
    by blast+
  show "replace_reviewers res reviewers = Inr res"
    using first_result_props [OF lb nul rs res] rs form by (rule stable_result)
next
  define rstr where "rstr = reviewers_str_of reviewers"
  note rc = reviewers_str_chars [OF rs, folded rstr_def]
  assume H: "\<not> bare_from line \<or>
       (line = u @ d # CHR ''r'' # e # old @ v \<and> is_before d \<and> is_eq_or_q e \<and>
        \<not> bare_from u \<and> reviewers_group (old @ v) = old \<and> \<not> bare_from v \<and> ends_list v)"
  have "\<exists>x. replace_reviewers line reviewers = Inr (strip x) \<and>
            replace_reviewers (strip x) reviewers = Inr (strip x)"
    using H
  proof
    assume nb: "\<not> bare_from line"
    show ?thesis
    proof (cases "R_SPECIFIER_RE_search line")
      case True
      show ?thesis using bare_free_fixed [OF nb True nul lb, of reviewers] by blast
    next
      case False
      show ?thesis
      proof (cases "reviewers = []")
        case True
        have "replace_reviewers line reviewers = Inr (strip (line @ '' ''))"
        proof (cases "line = []")
          case True
          then show ?thesis
            using \<open>reviewers = []\<close>
            by (simp add: replace_reviewers_def reviewers_str_of_def strip_def is_space_def)
        next
          case False
          then show ?thesis
            using lb \<open>reviewers = []\<close> \<open>\<not> R_SPECIFIER_RE_search line\<close>
            by (simp add: replace_reviewers_line rewrite_summary_def reviewers_str_of_def)
        qed
        moreover have "replace_reviewers (strip (line @ '' '')) [] = Inr (strip (line @ '' ''))"
          using bare_free_space [OF nb] nul lb
          by (intro empty_set_fixed) (auto simp: NUL_def is_linebreak_def)
        ultimately show ?thesis using True by blast
      next
        case rne: False
        have r: "rstr = ''r='' @ join '','' reviewers"
          using rne by (simp add: rstr_def reviewers_str_of_def)
        have "replace_reviewers line reviewers = Inr (strip (line @ CHR '' '' # rstr))"
        proof (cases "line = []")
          case True
          have "strip (CHR '' '' # rstr) = strip rstr"
            by (simp add: strip_def is_space_def)
          then show ?thesis
            using True rc(3) by (simp add: replace_reviewers_def rstr_def)
        next
          case False
          then show ?thesis
            using lb \<open>\<not> R_SPECIFIER_RE_search line\<close>
            by (simp add: replace_reviewers_line rewrite_summary_def rstr_def)
        qed
        moreover have "replace_reviewers
              (strip (line @ CHR '' '' # ''r='' @ join '','' reviewers @ [])) reviewers =
            Inr (strip (line @ CHR '' '' # ''r='' @ join '','' reviewers @ []))"
          using rne rs nb nul lb
          by (intro canonical_fixed)
             (auto simp: is_before_def is_space_def ends_list_def is_linebreak_def)
        ultimately show ?thesis using r by auto
      qed
    qed
  next
    assume "line = u @ d # CHR ''r'' # e # old @ v \<and> is_before d \<and> is_eq_or_q e \<and>
        \<not> bare_from u \<and> reviewers_group (old @ v) = old \<and> \<not> bare_from v \<and> ends_list v"
    then have shape: "line = u @ d # CHR ''r'' # e # old @ v" "is_before d" "is_eq_or_q e"
        "\<not> bare_from u" "reviewers_group (old @ v) = old" "\<not> bare_from v"
      and ends: "ends_list v"
      by blast+
    have parts: "NUL \<notin> set u" "NUL \<notin> set v" "\<forall>c \<in> set u. \<not> is_linebreak c"
      "\<forall>c \<in> set v. \<not> is_linebreak c" "\<not> is_linebreak d" "d \<noteq> NUL"
      using nul lb unfolding shape(1) by auto
    have one: "replace_reviewers line reviewers = Inr (strip (u @ d # rstr @ v))"
      unfolding rstr_def using lb shape nul rc(1) [unfolded rstr_def] by (rule rewrite_one_bare)
    show ?thesis
    proof (cases "reviewers = []")
      case True
      have "replace_reviewers (strip (u @ d # v)) [] = Inr (strip (u @ d # v))"
        using bare_free_without [OF shape(2,4,6) ends] parts
        by (intro empty_set_fixed) auto
      then show ?thesis using one True by (auto simp: rstr_def reviewers_str_of_def)
    next
      case False
      have r: "rstr = ''r='' @ join '','' reviewers"
        using False by (simp add: rstr_def reviewers_str_of_def)
      have "replace_reviewers
              (strip (u @ d # ''r='' @ join '','' reviewers @ v)) reviewers =
            Inr (strip (u @ d # ''r='' @ join '','' reviewers @ v))"
        using False rs shape(2,4,6) ends parts by (intro canonical_fixed) auto
      then show ?thesis using one r by auto
    qed
  qed
  then show "\<exists>out. replace_reviewers line reviewers = Inr out \<and>
                   replace_reviewers out reviewers = Inr out"
    by blast
qed

theorem rewrite_twice_same_witness:
  "filter is_linebreak ''Fix bug (r=bob)'' = [] \<and>
   NUL \<notin> set ''Fix bug (r=bob)'' \<and>
   list_all (\<lambda>r. r \<noteq> [] \<and> list_all is_nick r) [''alice'', ''carol''] \<and>
   ''Fix bug (r=bob)'' = ''Fix bug '' @ CHR ''('' # CHR ''r'' # CHR ''='' # ''bob'' @ '')'' \<and>
   is_before CHR ''('' \<and> is_eq_or_q CHR ''='' \<and> \<not> bare_from ''Fix bug '' \<and>
   reviewers_group (''bob'' @ '')'') = ''bob'' \<and> \<not> bare_from '')'' \<and> ends_list '')'' \<and>
   (\<exists>out. replace_reviewers ''Fix bug (r=bob)'' [''alice'', ''carol''] = Inr out \<and>
          replace_reviewers out [''alice'', ''carol''] = Inr out) \<and>
   filter is_linebreak ''Fix r=a, r=b'' = [] \<and>
   NUL \<notin> set ''Fix r=a, r=b'' \<and>
   replace_reviewers ''Fix r=a, r=b'' [''alice'', ''carol''] = Inr ''Fix r=alice,carol'' \<and>
   ''Fix r=alice,carol'' = ''Fix'' @ CHR '' '' # ''r='' @ join '','' [''alice'', ''carol''] @ [] \<and>
   is_before CHR '' '' \<and> \<not> bare_from ''Fix'' \<and> \<not> bare_from [] \<and> ends_list [] \<and>
   replace_reviewers ''Fix r=alice,carol'' [''alice'', ''carol''] = Inr ''Fix r=alice,carol''"
proof -
  have a0: "filter is_linebreak ''Fix bug (r=bob)'' = []" by code_simp
  then have a1: "\<forall>c \<in> set ''Fix bug (r=bob)''. \<not> is_linebreak c"
    by (simp only: filter_empty_conv)
  have a2: "NUL \<notin> set ''Fix bug (r=bob)''" by code_simp
  have r0: "list_all (\<lambda>r. r \<noteq> [] \<and> list_all is_nick r) [''alice'', ''carol'']" by code_simp
  then have r1: "\<forall>r \<in> set [''alice'', ''carol'']. r \<noteq> [] \<and> (\<forall>c \<in> set r. is_nick c)"
    by (simp only: list_all_iff)
  have a3: "''Fix bug (r=bob)'' = ''Fix bug '' @ CHR ''('' # CHR ''r'' # CHR ''='' # ''bob'' @ '')''"
    by simp
  have a4: "is_before CHR ''(''" by code_simp
  have a5: "is_eq_or_q CHR ''=''" by code_simp
  have a6: "\<not> bare_from ''Fix bug ''" by code_simp
  have a7: "reviewers_group (''bob'' @ '')'') = ''bob''" by code_simp
  have a8: "\<not> bare_from '')''" by code_simp
  have a9: "ends_list '')''" by code_simp
  have b0: "filter is_linebreak ''Fix r=a, r=b'' = []" by code_simp
  then have b1: "\<forall>c \<in> set ''Fix r=a, r=b''. \<not> is_linebreak c"
    by (simp only: filter_empty_conv)
  have b2: "NUL \<notin> set ''Fix r=a, r=b''" by code_simp
  have b3: "replace_reviewers ''Fix r=a, r=b'' [''alice'', ''carol''] = Inr ''Fix r=alice,carol''"
    by code_simp
  have b4: "''Fix r=alice,carol'' =
              ''Fix'' @ CHR '' '' # ''r='' @ join '','' [''alice'', ''carol''] @ []"
    by simp
  have b5: "is_before CHR '' ''" by code_simp
  have b6: "\<not> bare_from ''Fix''" by code_simp
  have b7: "\<not> bare_from []" by simp
  have b8: "ends_list []" by code_simp
  have ne: "[''alice'', ''carol''] \<noteq> []" by simp
  note t1 = rewrite_twice_same [OF a1 a2 r1, where u = "''Fix bug ''" and d = "CHR ''(''"
      and e = "CHR ''=''" and old = "''bob''" and v = "'')''"]
  note t2 = rewrite_twice_same [OF b1 b2 r1, where res = "''Fix r=alice,carol''"
      and p = "''Fix''" and b = "CHR '' ''" and q = "[]"]
  have c1: "\<exists>out. replace_reviewers ''Fix bug (r=bob)'' [''alice'', ''carol''] = Inr out \<and>
          replace_reviewers out [''alice'', ''carol''] = Inr out"
    using t1 a3 a4 a5 a6 a7 a8 a9 by blast
  have c2: "replace_reviewers ''Fix r=alice,carol'' [''alice'', ''carol''] =
              Inr ''Fix r=alice,carol''"
    using t2 b3 b4 b5 b6 b7 b8 ne by blast
  show ?thesis
    by (intro conjI) (fact a0 a2 r0 a3 a4 a5 a6 a7 a8 a9 c1 b0 b2 b3 b4 b5 b6 b7 b8 c2)+
qed

text \<open>
  C8 as stated fails on \<open>Fix r=a r, r=b=c\<close> with the reviewer \<open>alice\<close>: removing the marker
  of the second match with the comma before it joins \<open>r\<close> and \<open>=c\<close>, and the second rewrite
  removes the annotation that the first one made.
\<close>

theorem rewrite_twice_differs:
  "replace_reviewers ''Fix r=a r, r=b=c'' [''alice''] = Inr ''Fix r=alice r=c'' \<and>
   replace_reviewers ''Fix r=alice r=c'' [''alice''] = Inr ''Fix r=alice'' \<and>
   ''Fix r=alice'' \<noteq> ''Fix r=alice r=c''"
  by code_simp

text \<open>
  The conditions of the amended C8 are needed. A name outside the nick alphabet is matched
  in part only, and a NUL of the line is taken for the marker. A text after the annotation
  that continues a reviewer list is read as part of the canonical annotation by the second
  rewrite: a list delimiter with a name, a nick character after \<open>!\<close>, characters of a flag
  up to \<open>=\<close>, or \<open>=\<close> itself after a reviewer named \<open>r\<close>; and with the empty set such a text
  can become an annotation.
\<close>

lemma rewrite_twice_dotted_name:
  "replace_reviewers ''Fix'' [''john.doe''] = Inr ''Fix r=john.doe'' \<and>
   replace_reviewers ''Fix r=john.doe'' [''john.doe''] = Inr ''Fix r=john.doe.doe''"
  by code_simp

lemma rewrite_twice_NUL:
  "replace_reviewers (''Fix,'' @ [NUL]) [''alice''] = Inr (''Fix,'' @ [NUL] @ '' r=alice'') \<and>
   replace_reviewers (''Fix,'' @ [NUL] @ '' r=alice'') [''alice''] = Inr ''Fix r=alice''"
  by code_simp

lemma rewrite_twice_list_follows:
  "replace_reviewers ''Fix r=,bob'' [''alice''] = Inr ''Fix r=alice,bob'' \<and>
   replace_reviewers ''Fix r=alice,bob'' [''alice''] = Inr ''Fix r=alice'' \<and>
   \<not> ends_list '',bob''"
  by code_simp

lemma rewrite_twice_nick_follows:
  "replace_reviewers ''Fix r=bob!x'' [''alice''] = Inr ''Fix r=alicex'' \<and>
   replace_reviewers ''Fix r=alicex'' [''alice''] = Inr ''Fix r=alice'' \<and>
   reviewers_group ''bob!x'' = ''bob!'' \<and> \<not> ends_list ''x''"
  by code_simp

lemma rewrite_twice_flag_follows:
  "replace_reviewers ''Fix r=old.a=1'' [''alice'', ''bob''] = Inr ''Fix r=alice,bob.a=1'' \<and>
   replace_reviewers ''Fix r=alice,bob.a=1'' [''alice'', ''bob''] =
     Inr ''Fix r=alice,bob,bob.a=1'' \<and>
   reviewers_group ''old.a=1'' = ''old'' \<and> \<not> ends_list ''.a=1''"
  by code_simp

lemma rewrite_twice_eq_follows:
  "replace_reviewers ''Fix r=bob=x'' [''alice'', ''r''] = Inr ''Fix r=alice,r=x'' \<and>
   replace_reviewers ''Fix r=alice,r=x'' [''alice'', ''r''] = Inr ''Fix r=alice,r'' \<and>
   reviewers_group ''bob=x'' = ''bob'' \<and> \<not> ends_list ''=x''"
  by code_simp

lemma rewrite_twice_empty_set:
  "replace_reviewers ''Fix r=bob!r=x'' [] = Inr ''Fix r=x'' \<and>
   replace_reviewers ''Fix r=x'' [] = Inr ''Fix'' \<and>
   reviewers_group ''bob!r=x'' = ''bob!'' \<and> \<not> ends_list ''r=x''"
  by code_simp

end
